theory Spec2Isabelle
  imports Main "HOL-Library.Multiset" "HOL-Library.Product_Lexorder" "HOL-Library.Sublist"
begin

section \<open>Values, records and exceptions\<close>

text \<open>
  The values \<^verbatim>\<open>json.loads\<close> produces. A \<^verbatim>\<open>LogRecord\<close> is built by
  \<^verbatim>\<open>LogRecord(**json.loads(row))\<close>; the dataclass annotates its fields as \<^verbatim>\<open>str\<close>
  but nothing checks that at run time, so a field holds whatever JSON value the row gave it.
  The program never inspects a number, so a float is kept as its literal. An object is the
  list of the items of the \<^verbatim>\<open>dict\<close> that \<^verbatim>\<open>json.loads\<close> returns.
\<close>

datatype json =
    JNull
  | JBool bool
  | JInt int
  | JFloat string
  | JString string
  | JArray "json list"
  | JObject "(string \<times> json) list"

record LogRecord =
  log_level :: json
  timestamp :: json
  message :: json

text \<open>
  The exceptions the program can end with, named by their Python class and, where one class
  is raised at two places, by the place:
  \<^item> \<open>FileNotFoundError\<close>: \<^verbatim>\<open>FileNotFoundError('Wrong file path.')\<close>;
  \<^item> \<open>ValueError_log_type\<close>: \<^verbatim>\<open>ValueError('Log file type is incorrect.')\<close>;
  \<^item> \<open>JSONDecodeError\<close>: raised by \<^verbatim>\<open>json.loads\<close>;
  \<^item> \<open>TypeError\<close>: raised by \<^verbatim>\<open>LogRecord(**obj)\<close> on wrong keyword arguments, by
    \<^verbatim>\<open>strptime\<close> on a non-string and by \<^verbatim>\<open>None < None\<close>;
  \<^item> \<open>ValueError_strptime\<close>: the \<^verbatim>\<open>ValueError\<close> of \<^verbatim>\<open>datetime.strptime\<close>;
  \<^item> \<open>RuntimeError\<close>: \<^verbatim>\<open>RuntimeError('generator raised StopIteration')\<close>, which Python
    raises when a \<^verbatim>\<open>StopIteration\<close> escapes a generator's body (PEP 479).
\<close>

datatype error =
    FileNotFoundError
  | ValueError_log_type
  | JSONDecodeError
  | TypeError
  | ValueError_strptime
  | RuntimeError

section \<open>LogRecord: construction and comparison\<close>

text \<open>
  \<^verbatim>\<open>LogRecord(**obj)\<close>: the argument must be a mapping whose keys are exactly the three
  field names; anything else is a \<^verbatim>\<open>TypeError\<close>.
\<close>

definition LogRecord_init :: "json \<Rightarrow> error + LogRecord" where
  "LogRecord_init obj =
     (case obj of
        JObject kvs \<Rightarrow>
          (case (map_of kvs ''log_level'', map_of kvs ''timestamp'', map_of kvs ''message'') of
             (Some l, Some t, Some m) \<Rightarrow>
               if list_all (\<lambda>k. k = ''log_level'' \<or> k = ''timestamp'' \<or> k = ''message'')
                    (map fst kvs)
               then Inr \<lparr>log_level = l, timestamp = t, message = m\<rparr>
               else Inl TypeError
           | _ \<Rightarrow> Inl TypeError)
      | _ \<Rightarrow> Inl TypeError)"

text \<open>
  The property \<^verbatim>\<open>__timestamp\<close>: \<^verbatim>\<open>datetime.strptime(self.timestamp, '%Y-%m-%d %H:%M:%S')\<close>.
  The library function is a parameter \<open>strptime\<close>: \<open>None\<close> where it raises
  \<^verbatim>\<open>ValueError\<close>, a value of a linearly ordered type (the \<^verbatim>\<open>datetime\<close>) otherwise.
  (The source indents the line of the decorator with a tab; the property is read here as
  a member of the class, at the level of its fields and methods.)
\<close>

definition LogRecord_timestamp :: "(string \<Rightarrow> 'd option) \<Rightarrow> LogRecord \<Rightarrow> error + 'd" where
  "LogRecord_timestamp strptime self =
     (case timestamp self of
        JString s \<Rightarrow> (case strptime s of Some d \<Rightarrow> Inr d | None \<Rightarrow> Inl ValueError_strptime)
      | _ \<Rightarrow> Inl TypeError)"

text \<open>\<^verbatim>\<open>__lt__\<close> and \<^verbatim>\<open>__gt__\<close>: \<open>other\<close> is a record or \<^verbatim>\<open>None\<close>.\<close>

definition LogRecord_lt ::
  "(string \<Rightarrow> 'd::linorder option) \<Rightarrow> LogRecord \<Rightarrow> LogRecord option \<Rightarrow> error + bool" where
  "LogRecord_lt strptime self other =
     (case other of
        None \<Rightarrow> Inr True
      | Some other_record \<Rightarrow>
          (case LogRecord_timestamp strptime self of
             Inl e \<Rightarrow> Inl e
           | Inr x \<Rightarrow>
               (case LogRecord_timestamp strptime other_record of
                  Inl e \<Rightarrow> Inl e
                | Inr y \<Rightarrow> Inr (x < y))))"

definition LogRecord_gt ::
  "(string \<Rightarrow> 'd::linorder option) \<Rightarrow> LogRecord \<Rightarrow> LogRecord option \<Rightarrow> error + bool" where
  "LogRecord_gt strptime self other =
     (case other of
        None \<Rightarrow> Inr False
      | Some other_record \<Rightarrow>
          (case LogRecord_timestamp strptime self of
             Inl e \<Rightarrow> Inl e
           | Inr x \<Rightarrow>
               (case LogRecord_timestamp strptime other_record of
                  Inl e \<Rightarrow> Inl e
                | Inr y \<Rightarrow> Inr (x > y))))"

text \<open>
  The expression \<^verbatim>\<open>log_a_record < log_b_record\<close>, both operands a record or
  \<^verbatim>\<open>None\<close>. A record on the left calls its \<^verbatim>\<open>__lt__\<close>. \<^verbatim>\<open>None\<close> on the left
  has no \<^verbatim>\<open>__lt__\<close> for a record, so Python calls the reflected \<^verbatim>\<open>__gt__\<close> of the
  right operand with \<^verbatim>\<open>None\<close>. \<^verbatim>\<open>None < None\<close> is a \<^verbatim>\<open>TypeError\<close>.
\<close>

fun py_lt ::
  "(string \<Rightarrow> 'd::linorder option) \<Rightarrow> LogRecord option \<Rightarrow> LogRecord option \<Rightarrow> error + bool" where
  "py_lt strptime (Some a) other = LogRecord_lt strptime a other"
| "py_lt strptime None (Some b) = LogRecord_gt strptime b None"
| "py_lt strptime None None = Inl TypeError"

section \<open>Paths and the record reader\<close>

text \<open>
  A \<^verbatim>\<open>Path\<close> is modelled by what the program observes of it: \<^verbatim>\<open>exists()\<close>,
  \<^verbatim>\<open>is_file()\<close>, \<^verbatim>\<open>suffix\<close>, and the rows that iterating the opened file gives.
\<close>

record Path =
  path_exists :: bool
  path_is_file :: bool
  path_suffix :: string
  path_rows :: "string list"

text \<open>
  \<^verbatim>\<open>str.lower\<close> on the letters A to Z. (No other character lowers to a letter of
  \<^verbatim>\<open>'.jsonl'\<close>, so for the comparison below this is all of \<^verbatim>\<open>lower\<close>.)
\<close>

definition char_lower :: "char \<Rightarrow> char" where
  "char_lower c =
     (case map_of (zip ''ABCDEFGHIJKLMNOPQRSTUVWXYZ'' ''abcdefghijklmnopqrstuvwxyz'') c of
        Some l \<Rightarrow> l
      | None \<Rightarrow> c)"

definition str_lower :: "string \<Rightarrow> string" where
  "str_lower s = map char_lower s"

definition check_path_to_log :: "Path \<Rightarrow> error + bool" where
  "check_path_to_log log_path =
     (if \<not> (path_exists log_path \<and> path_is_file log_path) then Inl FileNotFoundError
      else if str_lower (path_suffix log_path) \<noteq> ''.jsonl'' then Inl ValueError_log_type
      else Inr True)"

text \<open>
  A generator object is modelled by its behaviour under repeated \<^verbatim>\<open>next\<close>: each call
  performs some input actions and then yields an item, ends (\<^verbatim>\<open>StopIteration\<close>) or
  raises. The actions are kept so that the order of validation and reading can be stated.
\<close>

datatype io = CheckPath | OpenFile | ReadRow string

datatype 'a gen =
    Yields "io list" 'a "'a gen"
  | Stops "io list"
  | Raises "io list" error

datatype 'a pulled = Item 'a | StopIteration | Raised error

text \<open>\<^verbatim>\<open>next(g)\<close>: a generator that has ended or raised is exhausted from then on.\<close>

fun gen_next :: "'a gen \<Rightarrow> io list \<times> 'a pulled \<times> 'a gen" where
  "gen_next (Yields acts x g) = (acts, Item x, g)"
| "gen_next (Stops acts) = (acts, StopIteration, Stops [])"
| "gen_next (Raises acts e) = (acts, Raised e, Stops [])"

text \<open>
  The expression \<^verbatim>\<open>LogRecord(**json.loads(row))\<close>. The library function
  \<^verbatim>\<open>json.loads\<close> is a parameter: \<open>None\<close> where it raises \<^verbatim>\<open>JSONDecodeError\<close>.
\<close>

definition decode_row :: "(string \<Rightarrow> json option) \<Rightarrow> string \<Rightarrow> error + LogRecord" where
  "decode_row json_loads row =
     (case json_loads row of
        None \<Rightarrow> Inl JSONDecodeError
      | Some obj \<Rightarrow> LogRecord_init obj)"

text \<open>
  The loop \<^verbatim>\<open>for row in log_file: yield LogRecord(**json.loads(row))\<close>; \<open>acts\<close> are
  the actions done since the last yield.
\<close>

fun read_rows :: "(string \<Rightarrow> json option) \<Rightarrow> io list \<Rightarrow> string list \<Rightarrow> LogRecord gen" where
  "read_rows json_loads acts [] = Stops acts"
| "read_rows json_loads acts (row # rest) =
     (case decode_row json_loads row of
        Inl e \<Rightarrow> Raises (acts @ [ReadRow row]) e
      | Inr r \<Rightarrow> Yields (acts @ [ReadRow row]) r (read_rows json_loads [] rest))"

text \<open>\<^verbatim>\<open>_get_record\<close>: nothing runs before the first \<^verbatim>\<open>next\<close>, which checks the path.\<close>

definition get_record :: "(string \<Rightarrow> json option) \<Rightarrow> Path \<Rightarrow> LogRecord gen" where
  "get_record json_loads log_path =
     (case check_path_to_log log_path of
        Inl e \<Rightarrow> Raises [CheckPath] e
      | Inr ok \<Rightarrow>
          if ok then read_rows json_loads [CheckPath, OpenFile] (path_rows log_path)
          else Stops [CheckPath])"

text \<open>The items a generator yields when it is run to its end, and how it ends.\<close>

fun gen_items :: "'a gen \<Rightarrow> 'a list" where
  "gen_items (Yields acts x g) = x # gen_items g"
| "gen_items (Stops acts) = []"
| "gen_items (Raises acts e) = []"

fun gen_end :: "'a gen \<Rightarrow> error option" where
  "gen_end (Yields acts x g) = gen_end g"
| "gen_end (Stops acts) = None"
| "gen_end (Raises acts e) = Some e"

fun gen_size :: "'a gen \<Rightarrow> nat" where
  "gen_size (Yields acts x g) = Suc (gen_size g)"
| "gen_size (Stops acts) = 0"
| "gen_size (Raises acts e) = 0"

section \<open>The merge\<close>

datatype side = LogA | LogB

text \<open>
  What a run of \<^verbatim>\<open>_get_output_record\<close> does, in order: the input actions of the two
  readers and the values it yields. \<open>Yield LogA\<close> is the \<^verbatim>\<open>yield log_a_record\<close> of the
  first branch, \<open>Yield LogB\<close> the \<^verbatim>\<open>yield log_b_record\<close> of the second. The yielded
  variable holds a record or \<^verbatim>\<open>None\<close>.
\<close>

datatype event = Io side io | Yield side "LogRecord option"

datatype outcome = Finished | Failed error

record merge_state =
  log_a_record :: "LogRecord option"
  log_b_record :: "LogRecord option"
  log_a_records :: "LogRecord gen"
  log_b_records :: "LogRecord gen"

text \<open>One test of the \<^verbatim>\<open>while\<close> condition and, when it holds, one run of the loop body.\<close>

definition merge_step ::
  "(string \<Rightarrow> 'd::linorder option) \<Rightarrow> merge_state \<Rightarrow> event list \<times> (outcome + merge_state)" where
  "merge_step strptime s =
     (if log_a_record s \<noteq> None \<or> log_b_record s \<noteq> None then
        (case py_lt strptime (log_a_record s) (log_b_record s) of
           Inl e \<Rightarrow> ([], Inl (Failed e))
         | Inr True \<Rightarrow>
             (case gen_next (log_a_records s) of
                (acts, Item r, g) \<Rightarrow>
                  (Yield LogA (log_a_record s) # map (Io LogA) acts,
                   Inr (s\<lparr>log_a_record := Some r, log_a_records := g\<rparr>))
              | (acts, StopIteration, g) \<Rightarrow>
                  (Yield LogA (log_a_record s) # map (Io LogA) acts,
                   Inr (s\<lparr>log_a_record := None, log_a_records := g\<rparr>))
              | (acts, Raised e, g) \<Rightarrow>
                  (Yield LogA (log_a_record s) # map (Io LogA) acts, Inl (Failed e)))
         | Inr False \<Rightarrow>
             (case gen_next (log_b_records s) of
                (acts, Item r, g) \<Rightarrow>
                  (Yield LogB (log_b_record s) # map (Io LogB) acts,
                   Inr (s\<lparr>log_b_record := Some r, log_b_records := g\<rparr>))
              | (acts, StopIteration, g) \<Rightarrow>
                  (Yield LogB (log_b_record s) # map (Io LogB) acts,
                   Inr (s\<lparr>log_b_record := None, log_b_records := g\<rparr>))
              | (acts, Raised e, g) \<Rightarrow>
                  (Yield LogB (log_b_record s) # map (Io LogB) acts, Inl (Failed e))))
      else ([], Inl Finished))"

definition state_size :: "merge_state \<Rightarrow> nat" where
  "state_size s =
     gen_size (log_a_records s) + gen_size (log_b_records s)
     + (if log_a_record s = None then 0 else 1) + (if log_b_record s = None then 0 else 1)"

text \<open>The \<^verbatim>\<open>while\<close> loop: steps until one ends the run.\<close>

function merge_loop ::
  "(string \<Rightarrow> 'd::linorder option) \<Rightarrow> merge_state \<Rightarrow> event list \<times> outcome" where
  "merge_loop strptime s =
     (case merge_step strptime s of
        (evs, Inl out) \<Rightarrow> (evs, out)
      | (evs, Inr s') \<Rightarrow>
          (case merge_loop strptime s' of (evs', out) \<Rightarrow> (evs @ evs', out)))"
  by pat_completeness auto

termination
proof (relation "measure (\<lambda>(strptime, s). state_size s)")
  fix strptime :: "string \<Rightarrow> 'd::linorder option" and s evs r s'
  assume "(evs, r) = merge_step strptime s" and "r = Inr s'"
  then have "merge_step strptime s = (evs, Inr s')" by simp
  then have "state_size s' < state_size s"
    by (cases "log_a_record s"; cases "log_b_record s"; cases "log_a_records s";
        cases "log_b_records s")
      (auto simp: merge_step_def state_size_def LogRecord_lt_def LogRecord_gt_def
         split: if_splits sum.splits bool.splits)
  then show "((strptime, s'), (strptime, s)) \<in> measure (\<lambda>(strptime, s). state_size s)"
    by simp
qed simp

declare merge_loop.simps [simp del]

text \<open>
  The body of \<^verbatim>\<open>_get_output_record\<close> from the two generator objects on: the two
  \<^verbatim>\<open>next\<close> calls before the loop are not guarded by \<^verbatim>\<open>try\<close>, so a
  \<^verbatim>\<open>StopIteration\<close> of either leaves the body of the generator
  \<^verbatim>\<open>_get_output_record\<close> and becomes a \<^verbatim>\<open>RuntimeError\<close>.
\<close>

definition get_output_record_from ::
  "(string \<Rightarrow> 'd::linorder option) \<Rightarrow> LogRecord gen \<Rightarrow> LogRecord gen \<Rightarrow> event list \<times> outcome" where
  "get_output_record_from strptime log_a_records0 log_b_records0 =
     (case gen_next log_a_records0 of
        (acts_a, StopIteration, ga) \<Rightarrow> (map (Io LogA) acts_a, Failed RuntimeError)
      | (acts_a, Raised e, ga) \<Rightarrow> (map (Io LogA) acts_a, Failed e)
      | (acts_a, Item a, ga) \<Rightarrow>
          (case gen_next log_b_records0 of
             (acts_b, StopIteration, gb) \<Rightarrow>
               (map (Io LogA) acts_a @ map (Io LogB) acts_b, Failed RuntimeError)
           | (acts_b, Raised e, gb) \<Rightarrow>
               (map (Io LogA) acts_a @ map (Io LogB) acts_b, Failed e)
           | (acts_b, Item b, gb) \<Rightarrow>
               (case merge_loop strptime
                       \<lparr>log_a_record = Some a, log_b_record = Some b,
                        log_a_records = ga, log_b_records = gb\<rparr> of
                  (evs, out) \<Rightarrow> (map (Io LogA) acts_a @ map (Io LogB) acts_b @ evs, out))))"

text \<open>\<^verbatim>\<open>_get_output_record\<close>, run to its end.\<close>

definition get_output_record ::
  "(string \<Rightarrow> json option) \<Rightarrow> (string \<Rightarrow> 'd::linorder option) \<Rightarrow> Path \<Rightarrow> Path
     \<Rightarrow> event list \<times> outcome" where
  "get_output_record json_loads strptime log_a_path log_b_path =
     (let log_a_records = get_record json_loads log_a_path;
          log_b_records = get_record json_loads log_b_path
      in get_output_record_from strptime log_a_records log_b_records)"

section \<open>What a run is observed by\<close>

text \<open>
  The yields of a run in order, each with the branch that made it, and the output sequence:
  the values yielded.
\<close>

fun yields :: "event list \<Rightarrow> (side \<times> LogRecord option) list" where
  "yields [] = []"
| "yields (Yield sd r # evs) = (sd, r) # yields evs"
| "yields (Io sd a # evs) = yields evs"

definition yielded :: "event list \<Rightarrow> LogRecord option list" where
  "yielded evs = map snd (yields evs)"

text \<open>The values yielded by one of the two branches, in order.\<close>

definition yielded_by :: "side \<Rightarrow> event list \<Rightarrow> LogRecord option list" where
  "yielded_by sd evs = map snd (filter (\<lambda>p. fst p = sd) (yields evs))"

text \<open>
  The input actions of a run in order, each with its side; those of one side; and all the
  actions of a generator that is run to its end.
\<close>

fun ios :: "event list \<Rightarrow> (side \<times> io) list" where
  "ios [] = []"
| "ios (Io sd a # evs) = (sd, a) # ios evs"
| "ios (Yield sd r # evs) = ios evs"

definition io_by :: "side \<Rightarrow> event list \<Rightarrow> io list" where
  "io_by sd evs = map snd (filter (\<lambda>p. fst p = sd) (ios evs))"

fun gen_acts :: "'a gen \<Rightarrow> io list" where
  "gen_acts (Yields acts x g) = acts @ gen_acts g"
| "gen_acts (Stops acts) = acts"
| "gen_acts (Raises acts e) = acts"

text \<open>
  The records one side still holds for the loop: its lookahead and what its generator has yet
  to yield (nothing once the lookahead is \<^verbatim>\<open>None\<close>: the loop never calls \<^verbatim>\<open>next\<close> on
  that side again), and the error the generator raises after them, if any.
\<close>

fun remaining :: "LogRecord option \<Rightarrow> LogRecord gen \<Rightarrow> LogRecord list" where
  "remaining None g = []"
| "remaining (Some r) g = r # gen_items g"

fun remaining_end :: "LogRecord option \<Rightarrow> LogRecord gen \<Rightarrow> error option" where
  "remaining_end None g = None"
| "remaining_end (Some r) g = gen_end g"

definition pending_a :: "merge_state \<Rightarrow> LogRecord list" where
  "pending_a s = remaining (log_a_record s) (log_a_records s)"

definition pending_b :: "merge_state \<Rightarrow> LogRecord list" where
  "pending_b s = remaining (log_b_record s) (log_b_records s)"

definition end_a :: "merge_state \<Rightarrow> error option" where
  "end_a s = remaining_end (log_a_record s) (log_a_records s)"

definition end_b :: "merge_state \<Rightarrow> error option" where
  "end_b s = remaining_end (log_b_record s) (log_b_records s)"

text \<open>A generator with its input actions erased: what is left is what it yields and how it ends.\<close>

fun strip_io :: "'a gen \<Rightarrow> 'a gen" where
  "strip_io (Yields acts x g) = Yields [] x (strip_io g)"
| "strip_io (Stops acts) = Stops []"
| "strip_io (Raises acts e) = Raises [] e"

definition strip_state :: "merge_state \<Rightarrow> merge_state" where
  "strip_state s =
     s\<lparr>log_a_records := strip_io (log_a_records s), log_b_records := strip_io (log_b_records s)\<rparr>"

text \<open>
  The loop with a bound on the number of times the \<^verbatim>\<open>while\<close> condition is tested:
  \<open>None\<close> when the bound is reached before the loop has ended.
\<close>

fun merge_loop_fuel ::
  "nat \<Rightarrow> (string \<Rightarrow> 'd::linorder option) \<Rightarrow> merge_state \<Rightarrow> (event list \<times> outcome) option" where
  "merge_loop_fuel 0 strptime s = None"
| "merge_loop_fuel (Suc n) strptime s =
     (case merge_step strptime s of
        (evs, Inl out) \<Rightarrow> Some (evs, out)
      | (evs, Inr s') \<Rightarrow>
          (case merge_loop_fuel n strptime s' of
             None \<Rightarrow> None
           | Some (evs', out) \<Rightarrow> Some (evs @ evs', out)))"

section \<open>Notions the properties are stated with\<close>

text \<open>
  A sequence of records is sorted by parsed timestamp when every timestamp parses and each
  record's parsed timestamp is at most that of every later record.
\<close>

definition ts_le :: "(string \<Rightarrow> 'd::linorder option) \<Rightarrow> LogRecord \<Rightarrow> LogRecord \<Rightarrow> bool" where
  "ts_le strptime x y =
     (case (LogRecord_timestamp strptime x, LogRecord_timestamp strptime y) of
        (Inr dx, Inr dy) \<Rightarrow> dx \<le> dy
      | _ \<Rightarrow> False)"

definition ts_ok :: "(string \<Rightarrow> 'd option) \<Rightarrow> LogRecord \<Rightarrow> bool" where
  "ts_ok strptime x = (case LogRecord_timestamp strptime x of Inr d \<Rightarrow> True | Inl e \<Rightarrow> False)"

definition sorted_by_timestamp :: "(string \<Rightarrow> 'd::linorder option) \<Rightarrow> LogRecord list \<Rightarrow> bool" where
  "sorted_by_timestamp strptime rs = (list_all (ts_ok strptime) rs \<and> sorted_wrt (ts_le strptime) rs)"

text \<open>
  The step as the specification words it, over an explicit case distinction on the two
  lookaheads instead of the overloaded comparison: with one side exhausted, emit the other
  side's lookahead and advance that side; with both present, compare the parsed timestamps,
  emit \<open>A\<close>'s record and advance \<open>A\<close> if \<open>A\<close>'s is strictly earlier, otherwise emit \<open>B\<close>'s
  record and advance \<open>B\<close>; stop when both are exhausted. A timestamp that does not parse
  halts the merge. To advance a side is to pull its reader once: the lookahead becomes the
  next record, or the exhausted marker; an exception of the reader halts the merge.
\<close>

definition emit_and_advance ::
  "side \<Rightarrow> LogRecord \<Rightarrow> merge_state \<Rightarrow> event list \<times> (outcome + merge_state)" where
  "emit_and_advance sd r s =
     (case sd of
        LogA \<Rightarrow>
          (case gen_next (log_a_records s) of
             (acts, p, g) \<Rightarrow>
               (Yield LogA (Some r) # map (Io LogA) acts,
                case p of
                  Item r' \<Rightarrow> Inr (s\<lparr>log_a_record := Some r', log_a_records := g\<rparr>)
                | StopIteration \<Rightarrow> Inr (s\<lparr>log_a_record := None, log_a_records := g\<rparr>)
                | Raised e \<Rightarrow> Inl (Failed e)))
      | LogB \<Rightarrow>
          (case gen_next (log_b_records s) of
             (acts, p, g) \<Rightarrow>
               (Yield LogB (Some r) # map (Io LogB) acts,
                case p of
                  Item r' \<Rightarrow> Inr (s\<lparr>log_b_record := Some r', log_b_records := g\<rparr>)
                | StopIteration \<Rightarrow> Inr (s\<lparr>log_b_record := None, log_b_records := g\<rparr>)
                | Raised e \<Rightarrow> Inl (Failed e))))"

definition spec_step ::
  "(string \<Rightarrow> 'd::linorder option) \<Rightarrow> merge_state \<Rightarrow> event list \<times> (outcome + merge_state)" where
  "spec_step strptime s =
     (case (log_a_record s, log_b_record s) of
        (None, None) \<Rightarrow> ([], Inl Finished)
      | (None, Some b) \<Rightarrow> emit_and_advance LogB b s
      | (Some a, None) \<Rightarrow> emit_and_advance LogA a s
      | (Some a, Some b) \<Rightarrow>
          (case LogRecord_timestamp strptime a of
             Inl e \<Rightarrow> ([], Inl (Failed e))
           | Inr ta \<Rightarrow>
               (case LogRecord_timestamp strptime b of
                  Inl e \<Rightarrow> ([], Inl (Failed e))
                | Inr tb \<Rightarrow>
                    if ta < tb then emit_and_advance LogA a s else emit_and_advance LogB b s)))"

text \<open>
  An input path the specification calls invalid, the two exceptions the program raises for
  one (the specification's \<^verbatim>\<open>InvalidInputError\<close>), and the actions of a reader on a path
  in the order it can do them: the check, then, for a valid path only, the opening and the
  rows one by one.
\<close>

definition invalid_input :: "Path \<Rightarrow> bool" where
  "invalid_input p =
     (\<not> path_exists p \<or> \<not> path_is_file p \<or> str_lower (path_suffix p) \<noteq> ''.jsonl'')"

definition is_input_error :: "error \<Rightarrow> bool" where
  "is_input_error e = (e = FileNotFoundError \<or> e = ValueError_log_type)"

definition reader_acts :: "Path \<Rightarrow> io list" where
  "reader_acts p =
     CheckPath # (if invalid_input p then [] else OpenFile # map ReadRow (path_rows p))"

section \<open>A concrete setting for worked examples\<close>

text \<open>
  For the worked examples the two library parameters are instantiated. \<open>strptime_padded\<close>
  reads the zero-padded form \<^verbatim>\<open>YYYY-MM-DD HH:MM:SS\<close> (19 characters) into the fields of
  the \<^verbatim>\<open>datetime\<close>, which are compared lexicographically as \<^verbatim>\<open>datetime\<close> compares;
  on such a string it is what \<^verbatim>\<open>datetime.strptime\<close> with the program's format
  returns. It rejects every other string; the examples use only padded timestamps and
  strings with no digit at all.
\<close>

definition digit :: "char \<Rightarrow> nat option" where
  "digit c = (let n = (of_char c :: nat) in if 48 \<le> n \<and> n \<le> 57 then Some (n - 48) else None)"

fun number :: "nat \<Rightarrow> string \<Rightarrow> nat option" where
  "number acc [] = Some acc"
| "number acc (c # cs) = (case digit c of None \<Rightarrow> None | Some d \<Rightarrow> number (10 * acc + d) cs)"

definition days_in_month :: "nat \<Rightarrow> nat \<Rightarrow> nat" where
  "days_in_month y m =
     (if m = 2 then (if y mod 4 = 0 \<and> (y mod 100 \<noteq> 0 \<or> y mod 400 = 0) then 29 else 28)
      else if m = 4 \<or> m = 6 \<or> m = 9 \<or> m = 11 then 30 else 31)"

type_synonym datetime = "nat \<times> nat \<times> nat \<times> nat \<times> nat \<times> nat"

definition strptime_padded :: "string \<Rightarrow> datetime option" where
  "strptime_padded s =
     (if length s = 19 \<and> s ! 4 = CHR ''-'' \<and> s ! 7 = CHR ''-'' \<and> s ! 10 = CHR '' ''
         \<and> s ! 13 = CHR '':'' \<and> s ! 16 = CHR '':''
      then
        (case (number 0 (take 4 s), number 0 (take 2 (drop 5 s)), number 0 (take 2 (drop 8 s)),
               number 0 (take 2 (drop 11 s)), number 0 (take 2 (drop 14 s)),
               number 0 (take 2 (drop 17 s))) of
           (Some y, Some m, Some d, Some hh, Some mm, Some ss) \<Rightarrow>
             if 1 \<le> y \<and> 1 \<le> m \<and> m \<le> 12 \<and> 1 \<le> d \<and> d \<le> days_in_month y m
                \<and> hh \<le> 23 \<and> mm \<le> 59 \<and> ss \<le> 59
             then Some (y, m, d, hh, mm, ss) else None
         | _ \<Rightarrow> None)
      else None)"

text \<open>
  The rows of the example files (each with its line terminator), the JSON values they hold
  and the records they become. \<open>json_loads_example\<close> is \<^verbatim>\<open>json.loads\<close> on these
  rows; any other string, such as the row \<^verbatim>\<open>not json\<close> of the examples, it treats as
  undecodable.
\<close>

definition row_of :: "string \<Rightarrow> string \<Rightarrow> string \<Rightarrow> string" where
  \<open>row_of l t m =
     ''{"log_level": "'' @ l @ ''", "timestamp": "'' @ t @ ''", "message": "'' @ m @ ''"}''
     @ [CHR 0x0A]\<close>

definition obj_of :: "string \<Rightarrow> string \<Rightarrow> string \<Rightarrow> json" where
  "obj_of l t m =
     JObject [(''log_level'', JString l), (''timestamp'', JString t), (''message'', JString m)]"

definition rec_of :: "string \<Rightarrow> string \<Rightarrow> string \<Rightarrow> LogRecord" where
  "rec_of l t m = \<lparr>log_level = JString l, timestamp = JString t, message = JString m\<rparr>"

definition row_no_timestamp :: string where
  \<open>row_no_timestamp = ''{"log_level": "INFO", "message": "m"}'' @ [CHR 0x0A]\<close>

definition json_loads_example :: "string \<Rightarrow> json option" where
  "json_loads_example =
     map_of
       [(row_of ''INFO'' ''2024-01-01 00:00:01'' ''a'', obj_of ''INFO'' ''2024-01-01 00:00:01'' ''a''),
        (row_of ''WARN'' ''2024-01-01 00:00:03'' ''b'', obj_of ''WARN'' ''2024-01-01 00:00:03'' ''b''),
        (row_of ''INFO'' ''2024-01-01 00:00:05'' ''c'', obj_of ''INFO'' ''2024-01-01 00:00:05'' ''c''),
        (row_of ''WARN'' ''2024-01-01 00:00:01'' ''y'', obj_of ''WARN'' ''2024-01-01 00:00:01'' ''y''),
        (row_of ''INFO'' ''yesterday'' ''z'', obj_of ''INFO'' ''yesterday'' ''z''),
        (row_no_timestamp, JObject [(''log_level'', JString ''INFO''), (''message'', JString ''m'')])]"

abbreviation rec_a :: LogRecord where "rec_a \<equiv> rec_of ''INFO'' ''2024-01-01 00:00:01'' ''a''"

abbreviation rec_b :: LogRecord where "rec_b \<equiv> rec_of ''WARN'' ''2024-01-01 00:00:03'' ''b''"

abbreviation rec_c :: LogRecord where "rec_c \<equiv> rec_of ''INFO'' ''2024-01-01 00:00:05'' ''c''"

abbreviation rec_y :: LogRecord where "rec_y \<equiv> rec_of ''WARN'' ''2024-01-01 00:00:01'' ''y''"

abbreviation rec_z :: LogRecord where "rec_z \<equiv> rec_of ''INFO'' ''yesterday'' ''z''"

abbreviation row_a :: string where "row_a \<equiv> row_of ''INFO'' ''2024-01-01 00:00:01'' ''a''"

abbreviation row_b :: string where "row_b \<equiv> row_of ''WARN'' ''2024-01-01 00:00:03'' ''b''"

abbreviation row_c :: string where "row_c \<equiv> row_of ''INFO'' ''2024-01-01 00:00:05'' ''c''"

abbreviation row_y :: string where "row_y \<equiv> row_of ''WARN'' ''2024-01-01 00:00:01'' ''y''"

abbreviation row_z :: string where "row_z \<equiv> row_of ''INFO'' ''yesterday'' ''z''"

abbreviation row_not_json :: string where "row_not_json \<equiv> ''not json'' @ [CHR 0x0A]"

definition log_file :: "string list \<Rightarrow> Path" where
  "log_file rows =
     \<lparr>path_exists = True, path_is_file = True, path_suffix = ''.jsonl'', path_rows = rows\<rparr>"

section \<open>Steps and runs of the loop\<close>

lemma py_lt_True_left: "py_lt strptime a b = Inr True \<Longrightarrow> a \<noteq> None"
  by (cases a; cases b) (simp_all add: LogRecord_gt_def)

lemma py_lt_False_right: "py_lt strptime a b = Inr False \<Longrightarrow> b \<noteq> None"
  by (cases a; cases b) (simp_all add: LogRecord_lt_def)

lemma gen_next_size:
  "gen_next g = (acts, p, g') \<Longrightarrow> gen_size g' \<le> gen_size g \<and> (\<forall>r. p = Item r \<longrightarrow> gen_size g' < gen_size g)"
  by (cases g) auto

lemma merge_step_decreases:
  assumes "merge_step strptime s = (evs, Inr s')"
  shows "state_size s' < state_size s"
proof (cases "py_lt strptime (log_a_record s) (log_b_record s)")
  case (Inl e)
  with assms show ?thesis by (simp add: merge_step_def split: if_splits)
next
  case (Inr t)
  show ?thesis
  proof (cases t)
    case True
    with Inr have a: "log_a_record s \<noteq> None" by (auto dest: py_lt_True_left)
    obtain acts p g where n: "gen_next (log_a_records s) = (acts, p, g)"
      by (cases "gen_next (log_a_records s)") auto
    from gen_next_size[OF n] assms Inr True a n show ?thesis
      by (cases p) (auto simp: merge_step_def state_size_def split: if_splits)
  next
    case False
    with Inr have b: "log_b_record s \<noteq> None" by (auto dest: py_lt_False_right)
    obtain acts p g where n: "gen_next (log_b_records s) = (acts, p, g)"
      by (cases "gen_next (log_b_records s)") auto
    from gen_next_size[OF n] assms Inr False b n show ?thesis
      by (cases p) (auto simp: merge_step_def state_size_def split: if_splits)
  qed
qed

lemma yields_append: "yields (xs @ ys) = yields xs @ yields ys"
  by (induction xs rule: yields.induct) auto

lemma yields_map_Io: "yields (map (Io sd) acts) = []"
  by (induction acts) auto

lemma merge_step_continues:
  assumes "merge_step sp s = (evs, Inr s')"
  shows "(\<exists>r. log_a_record s = Some r \<and> py_lt sp (Some r) (log_b_record s) = Inr True
            \<and> yields evs = [(LogA, Some r)] \<and> pending_a s = r # pending_a s'
            \<and> end_a s' = end_a s \<and> log_b_record s' = log_b_record s
            \<and> pending_b s' = pending_b s \<and> end_b s' = end_b s)
       \<or> (\<exists>r. log_b_record s = Some r \<and> py_lt sp (log_a_record s) (Some r) = Inr False
            \<and> yields evs = [(LogB, Some r)] \<and> pending_b s = r # pending_b s'
            \<and> end_b s' = end_b s \<and> log_a_record s' = log_a_record s
            \<and> pending_a s' = pending_a s \<and> end_a s' = end_a s)"
proof (cases "py_lt sp (log_a_record s) (log_b_record s)")
  case (Inl e)
  with assms show ?thesis by (simp add: merge_step_def split: if_splits)
next
  case (Inr t)
  show ?thesis
  proof (cases t)
    case True
    with Inr obtain r where a: "log_a_record s = Some r"
      using py_lt_True_left by fastforce
    from assms Inr True a show ?thesis
      by (cases "log_a_records s")
        (auto simp: merge_step_def pending_a_def end_a_def pending_b_def end_b_def yields_map_Io)
  next
    case False
    with Inr obtain r where b: "log_b_record s = Some r"
      using py_lt_False_right by fastforce
    from assms Inr False b show ?thesis
      by (cases "log_b_records s")
        (auto simp: merge_step_def pending_a_def end_a_def pending_b_def end_b_def yields_map_Io)
  qed
qed

lemma merge_step_stops:
  assumes "merge_step sp s = (evs, Inl out)"
  shows "(out = Finished \<and> evs = [] \<and> log_a_record s = None \<and> log_b_record s = None)
       \<or> (\<exists>e. out = Failed e \<and> evs = [] \<and> py_lt sp (log_a_record s) (log_b_record s) = Inl e
             \<and> (log_a_record s \<noteq> None \<or> log_b_record s \<noteq> None))
       \<or> (\<exists>r e. out = Failed e \<and> log_a_record s = Some r
             \<and> py_lt sp (Some r) (log_b_record s) = Inr True
             \<and> yields evs = [(LogA, Some r)] \<and> pending_a s = [r] \<and> end_a s = Some e)
       \<or> (\<exists>r e. out = Failed e \<and> log_b_record s = Some r
             \<and> py_lt sp (log_a_record s) (Some r) = Inr False
             \<and> yields evs = [(LogB, Some r)] \<and> pending_b s = [r] \<and> end_b s = Some e)"
proof (cases "log_a_record s = None \<and> log_b_record s = None")
  case True
  with assms show ?thesis by (simp add: merge_step_def)
next
  case live: False
  show ?thesis
  proof (cases "py_lt sp (log_a_record s) (log_b_record s)")
    case (Inl e)
    with assms live show ?thesis by (auto simp add: merge_step_def split: if_splits)
  next
    case (Inr t)
    show ?thesis
    proof (cases t)
      case True
      with Inr obtain r where a: "log_a_record s = Some r"
        using py_lt_True_left by fastforce
      from assms Inr True a show ?thesis
        by (cases "log_a_records s")
          (auto simp: merge_step_def pending_a_def end_a_def pending_b_def end_b_def yields_map_Io)
    next
      case False
      with Inr obtain r where b: "log_b_record s = Some r"
        using py_lt_False_right by fastforce
      from assms Inr False b show ?thesis
        by (cases "log_b_records s")
          (auto simp: merge_step_def pending_a_def end_a_def pending_b_def end_b_def yields_map_Io)
    qed
  qed
qed

lemma merge_step_stops_yields:
  assumes "merge_step sp s = (evs, Inl out)"
  shows "yields evs = []
       \<or> (\<exists>r. yields evs = [(LogA, Some r)] \<and> pending_a s = [r])
       \<or> (\<exists>r. yields evs = [(LogB, Some r)] \<and> pending_b s = [r])"
  using merge_step_stops[OF assms] by auto

lemma merge_loop_result_induct [consumes 1, case_names Stop Step]:
  assumes run: "merge_loop sp s = (evs, out)"
    and stop: "\<And>s evs out. merge_step sp s = (evs, Inl out) \<Longrightarrow> P s evs out"
    and step: "\<And>s evs1 s' evs2 out. merge_step sp s = (evs1, Inr s') \<Longrightarrow>
              merge_loop sp s' = (evs2, out) \<Longrightarrow> P s' evs2 out \<Longrightarrow> P s (evs1 @ evs2) out"
  shows "P s evs out"
proof -
  have "merge_loop sp' s = (evs, out) \<Longrightarrow> sp' = sp \<Longrightarrow> P s evs out" for sp'
  proof (induction sp' s arbitrary: evs out rule: merge_loop.induct)
    case (1 sp' s)
    obtain evs1 r where st: "merge_step sp s = (evs1, r)" by force
    show ?case
    proof (cases r)
      case (Inl out1)
      with st have m: "merge_step sp s = (evs1, Inl out1)" by simp
      with "1.prems" have eq: "evs = evs1" "out = out1"
        by (simp_all add: merge_loop.simps[of sp s])
      show ?thesis unfolding eq by (rule stop[OF m])
    next
      case (Inr s')
      with st have m: "merge_step sp s = (evs1, Inr s')" by simp
      obtain evs2 o2 where rec: "merge_loop sp s' = (evs2, o2)" by force
      with m "1.prems" have eq: "evs = evs1 @ evs2" "out = o2"
        by (simp_all add: merge_loop.simps[of sp s])
      from st "1.prems"(2) have st': "(evs1, r) = merge_step sp' s" by simp
      from rec "1.prems"(2) have rec': "merge_loop sp' s' = (evs2, o2)" by simp
      have "P s' evs2 o2" using "1.IH"[OF st' Inr rec' "1.prems"(2)] .
      then show ?thesis unfolding eq by (rule step[OF m rec])
    qed
  qed
  with run show ?thesis by simp
qed

lemma yielded_by_append: "yielded_by sd (xs @ ys) = yielded_by sd xs @ yielded_by sd ys"
  by (simp add: yielded_by_def yields_append)

lemma mset_yielded_sides:
  "mset (yielded evs) = mset (yielded_by LogA evs) + mset (yielded_by LogB evs)"
proof -
  have "mset (map snd ps) = mset (map snd (filter (\<lambda>p. fst p = LogA) ps))
          + mset (map snd (filter (\<lambda>p. fst p = LogB) ps))" for ps :: "(side \<times> LogRecord option) list"
  proof (induction ps)
    case Nil
    show ?case by simp
  next
    case (Cons p ps)
    then show ?case by (cases "fst p") auto
  qed
  then show ?thesis by (simp add: yielded_def yielded_by_def)
qed

lemma merge_loop_sides:
  assumes "merge_loop sp s = (evs, out)"
  shows "prefix (yielded_by LogA evs) (map Some (pending_a s))
       \<and> prefix (yielded_by LogB evs) (map Some (pending_b s))
       \<and> (out = Finished \<longrightarrow>
            yielded_by LogA evs = map Some (pending_a s) \<and> end_a s = None
          \<and> yielded_by LogB evs = map Some (pending_b s) \<and> end_b s = None)"
  using assms
proof (induction rule: merge_loop_result_induct)
  case (Stop s evs out)
  from merge_step_stops[OF this] show ?case
    by (auto simp: yielded_by_def pending_a_def pending_b_def end_a_def end_b_def)
next
  case (Step s evs1 s' evs2 out)
  from merge_step_continues[OF Step(1)] show ?case
  proof (elim disjE exE conjE)
    fix r
    assume y: "yields evs1 = [(LogA, Some r)]" and p: "pending_a s = r # pending_a s'"
      and e: "end_a s' = end_a s" "pending_b s' = pending_b s" "end_b s' = end_b s"
    from y have "yielded_by LogA evs1 = [Some r]" "yielded_by LogB evs1 = []"
      by (simp_all add: yielded_by_def)
    with Step(3) p e show ?thesis by (simp add: yielded_by_append)
  next
    fix r
    assume y: "yields evs1 = [(LogB, Some r)]" and p: "pending_b s = r # pending_b s'"
      and e: "end_b s' = end_b s" "pending_a s' = pending_a s" "end_a s' = end_a s"
    from y have "yielded_by LogB evs1 = [Some r]" "yielded_by LogA evs1 = []"
      by (simp_all add: yielded_by_def)
    with Step(3) p e show ?thesis by (simp add: yielded_by_append)
  qed
qed

lemma get_output_record_from_sides:
  assumes "get_output_record_from sp ga gb = (evs, out)"
  shows "prefix (yielded_by LogA evs) (map Some (gen_items ga))
       \<and> prefix (yielded_by LogB evs) (map Some (gen_items gb))
       \<and> (out = Finished \<longrightarrow>
            yielded_by LogA evs = map Some (gen_items ga) \<and> gen_end ga = None
          \<and> yielded_by LogB evs = map Some (gen_items gb) \<and> gen_end gb = None)"
proof (cases ga)
  case (Yields acts_a a ga')
  show ?thesis
  proof (cases gb)
    case (Yields acts_b b gb')
    define s0 where "s0 = \<lparr>log_a_record = Some a, log_b_record = Some b,
                        log_a_records = ga', log_b_records = gb'\<rparr>"
    obtain evs0 out0 where run: "merge_loop sp s0 = (evs0, out0)" by force
    with assms \<open>ga = _\<close> Yields have eq: "evs = map (Io LogA) acts_a @ map (Io LogB) acts_b @ evs0"
      "out = out0"
      by (simp_all add: get_output_record_from_def s0_def)
    have y: "yielded_by sd (map (Io LogA) acts_a @ map (Io LogB) acts_b @ evs0)
               = yielded_by sd evs0" for sd
      by (simp add: yielded_by_def yields_append yields_map_Io)
    have p: "pending_a s0 = gen_items ga" "pending_b s0 = gen_items gb"
      "end_a s0 = gen_end ga" "end_b s0 = gen_end gb"
      by (simp_all add: s0_def pending_a_def pending_b_def end_a_def end_b_def \<open>ga = _\<close> Yields)
    from merge_loop_sides[OF run] show ?thesis by (simp add: y p eq)
  next
    case (Stops acts_b)
    with assms \<open>ga = _\<close> show ?thesis
      by (auto simp: get_output_record_from_def yielded_by_def yields_append yields_map_Io)
  next
    case (Raises acts_b e)
    with assms \<open>ga = _\<close> show ?thesis
      by (auto simp: get_output_record_from_def yielded_by_def yields_append yields_map_Io)
  qed
next
  case (Stops acts_a)
  with assms show ?thesis
    by (auto simp: get_output_record_from_def yielded_by_def yields_map_Io)
next
  case (Raises acts_a e)
  with assms show ?thesis
    by (auto simp: get_output_record_from_def yielded_by_def yields_map_Io)
qed

lemma get_output_record_from_cases [consumes 1, case_names Early Loop]:
  assumes run: "get_output_record_from sp ga gb = (evs, out)"
    and early: "\<And>e. yields evs = [] \<Longrightarrow> out = Failed e \<Longrightarrow> P"
    and loop: "\<And>s0 acts evs0. merge_loop sp s0 = (evs0, out) \<Longrightarrow> evs = acts @ evs0 \<Longrightarrow>
        yields acts = [] \<Longrightarrow> pending_a s0 = gen_items ga \<Longrightarrow> pending_b s0 = gen_items gb \<Longrightarrow>
        end_a s0 = gen_end ga \<Longrightarrow> end_b s0 = gen_end gb \<Longrightarrow> P"
  shows P
proof (cases ga)
  case ya: (Yields acts_a a ga')
  show ?thesis
  proof (cases gb)
    case (Yields acts_b b gb')
    define s0 where "s0 = \<lparr>log_a_record = Some a, log_b_record = Some b,
                        log_a_records = ga', log_b_records = gb'\<rparr>"
    obtain evs0 out0 where r0: "merge_loop sp s0 = (evs0, out0)" by force
    with run ya Yields have eq: "evs = (map (Io LogA) acts_a @ map (Io LogB) acts_b) @ evs0"
      "out = out0"
      by (simp_all add: get_output_record_from_def s0_def)
    have "yields (map (Io LogA) acts_a @ map (Io LogB) acts_b) = []"
      by (simp add: yields_append yields_map_Io)
    moreover have "pending_a s0 = gen_items ga" "pending_b s0 = gen_items gb"
      "end_a s0 = gen_end ga" "end_b s0 = gen_end gb"
      by (simp_all add: s0_def pending_a_def pending_b_def end_a_def end_b_def ya Yields)
    ultimately show ?thesis using loop[of s0 evs0] r0 eq by blast
  next
    case (Stops acts_b)
    with run ya have "yields evs = []" "out = Failed RuntimeError"
      by (auto simp: get_output_record_from_def yields_append yields_map_Io)
    then show ?thesis by (rule early)
  next
    case (Raises acts_b e)
    with run ya have "yields evs = []" "out = Failed e"
      by (auto simp: get_output_record_from_def yields_append yields_map_Io)
    then show ?thesis by (rule early)
  qed
next
  case (Stops acts_a)
  with run have "yields evs = []" "out = Failed RuntimeError"
    by (auto simp: get_output_record_from_def yields_map_Io)
  then show ?thesis by (rule early)
next
  case (Raises acts_a e)
  with run have "yields evs = []" "out = Failed e"
    by (auto simp: get_output_record_from_def yields_map_Io)
  then show ?thesis by (rule early)
qed

section \<open>The output holds the records of both inputs\<close>

text \<open>
  C2. When the merge ends without an exception, its output has as many values as the two
  readers yield records together, and as a multiset it is the two readers' records, each
  as often as the readers yield it.
\<close>

theorem output_holds_both_inputs:
  assumes "get_output_record json_loads strptime log_a_path log_b_path = (evs, Finished)"
  shows "length (yielded evs)
           = length (gen_items (get_record json_loads log_a_path))
             + length (gen_items (get_record json_loads log_b_path))
       \<and> mset (yielded evs)
           = image_mset Some (mset (gen_items (get_record json_loads log_a_path))
                              + mset (gen_items (get_record json_loads log_b_path)))"
proof -
  from assms have "get_output_record_from strptime (get_record json_loads log_a_path)
      (get_record json_loads log_b_path) = (evs, Finished)"
    by (simp add: get_output_record_def)
  from get_output_record_from_sides[OF this]
  have a: "yielded_by LogA evs = map Some (gen_items (get_record json_loads log_a_path))"
    and b: "yielded_by LogB evs = map Some (gen_items (get_record json_loads log_b_path))"
    by simp_all
  have m: "mset (yielded evs)
           = image_mset Some (mset (gen_items (get_record json_loads log_a_path))
                              + mset (gen_items (get_record json_loads log_b_path)))"
    by (simp add: mset_yielded_sides a b)
  from arg_cong[OF m, of size] have "length (yielded evs)
           = length (gen_items (get_record json_loads log_a_path))
             + length (gen_items (get_record json_loads log_b_path))"
    by simp
  with m show ?thesis by simp
qed

lemma example_ac_records:
  "gen_items (get_record json_loads_example (log_file [row_a, row_c])) = [rec_a, rec_c]"
  by code_simp

lemma example_b_records:
  "gen_items (get_record json_loads_example (log_file [row_b])) = [rec_b]"
  by code_simp

lemma example_ac_b_finished:
  "snd (get_output_record json_loads_example strptime_padded
          (log_file [row_a, row_c]) (log_file [row_b])) = Finished"
  by code_simp

theorem output_holds_both_inputs_witness:
  "snd (get_output_record json_loads_example strptime_padded
          (log_file [row_a, row_c]) (log_file [row_b])) = Finished
   \<and> length (yielded (fst (get_output_record json_loads_example strptime_padded
          (log_file [row_a, row_c]) (log_file [row_b])))) = 3
   \<and> mset (yielded (fst (get_output_record json_loads_example strptime_padded
          (log_file [row_a, row_c]) (log_file [row_b]))))
       = {#Some rec_a, Some rec_b, Some rec_c#}"
proof -
  have run: "get_output_record json_loads_example strptime_padded
          (log_file [row_a, row_c]) (log_file [row_b])
        = (fst (get_output_record json_loads_example strptime_padded
          (log_file [row_a, row_c]) (log_file [row_b])), Finished)"
    using example_ac_b_finished by (simp add: prod_eq_iff)
  from output_holds_both_inputs[OF run] example_ac_b_finished show ?thesis
    by (simp add: example_ac_records example_b_records)
qed

section \<open>The output is sorted\<close>

lemma ts_le_trans: "ts_le sp x y \<Longrightarrow> ts_le sp y z \<Longrightarrow> ts_le sp x z"
  by (auto simp: ts_le_def split: sum.splits)

lemma py_lt_True_ts_le: "py_lt sp (Some x) (Some y) = Inr True \<Longrightarrow> ts_le sp x y"
  by (auto simp: LogRecord_lt_def ts_le_def split: sum.splits)

lemma py_lt_False_ts_le: "py_lt sp (Some x) (Some y) = Inr False \<Longrightarrow> ts_le sp y x"
  by (auto simp: LogRecord_lt_def ts_le_def split: sum.splits)

lemma sorted_by_timestamp_Cons:
  "sorted_by_timestamp sp (r # rs)
     = (ts_ok sp r \<and> (\<forall>x\<in>set rs. ts_le sp r x) \<and> sorted_by_timestamp sp rs)"
  by (auto simp: sorted_by_timestamp_def)

lemma sorted_by_timestamp_bound:
  assumes "sorted_by_timestamp sp (h # t)" "ts_le sp r h" "x \<in> set (h # t)"
  shows "ts_le sp r x"
  using assms by (auto simp: sorted_by_timestamp_Cons intro: ts_le_trans)

lemma pending_b_cases:
  "(log_b_record s = None \<and> pending_b s = []) \<or> (\<exists>r t. log_b_record s = Some r \<and> pending_b s = r # t)"
  by (cases "log_b_record s") (auto simp: pending_b_def)

lemma pending_a_cases:
  "(log_a_record s = None \<and> pending_a s = []) \<or> (\<exists>r t. log_a_record s = Some r \<and> pending_a s = r # t)"
  by (cases "log_a_record s") (auto simp: pending_a_def)

lemma merge_loop_sorted:
  assumes "merge_loop sp s = (evs, out)"
    and "sorted_by_timestamp sp (pending_a s)" and "sorted_by_timestamp sp (pending_b s)"
  shows "\<exists>outs. yielded evs = map Some outs \<and> sorted_by_timestamp sp outs
           \<and> set outs \<subseteq> set (pending_a s) \<union> set (pending_b s)"
  using assms
proof (induction rule: merge_loop_result_induct)
  case (Stop s evs out)
  from merge_step_stops_yields[OF Stop(1)] show ?case
  proof (elim disjE exE conjE)
    assume "yields evs = []"
    then show ?thesis
      by (intro exI[of _ "[]"]) (simp add: yielded_def sorted_by_timestamp_def)
  next
    fix r assume y: "yields evs = [(LogA, Some r)]" and p: "pending_a s = [r]"
    with Stop(2) show ?thesis by (intro exI[of _ "[r]"]) (simp add: yielded_def)
  next
    fix r assume y: "yields evs = [(LogB, Some r)]" and p: "pending_b s = [r]"
    with Stop(3) show ?thesis by (intro exI[of _ "[r]"]) (simp add: yielded_def)
  qed
next
  case (Step s evs1 s' evs2 out)
  from merge_step_continues[OF Step(1)] show ?case
  proof (elim disjE exE conjE)
    fix r
    assume a: "log_a_record s = Some r" and lt: "py_lt sp (Some r) (log_b_record s) = Inr True"
      and y: "yields evs1 = [(LogA, Some r)]" and p: "pending_a s = r # pending_a s'"
      and q: "pending_b s' = pending_b s"
    from Step(4) p have sa: "sorted_by_timestamp sp (pending_a s')" and ok: "ts_ok sp r"
      and la: "\<forall>x\<in>set (pending_a s'). ts_le sp r x"
      by (simp_all add: sorted_by_timestamp_Cons)
    from Step(3)[OF sa] Step(5) q obtain outs where o: "yielded evs2 = map Some outs"
      "sorted_by_timestamp sp outs" "set outs \<subseteq> set (pending_a s') \<union> set (pending_b s)"
      by auto
    have lb: "ts_le sp r x" if "x \<in> set (pending_b s)" for x
      using pending_b_cases[of s]
    proof (elim disjE exE conjE)
      assume "pending_b s = []" with that show ?thesis by simp
    next
      fix rb t assume b: "log_b_record s = Some rb" and pb: "pending_b s = rb # t"
      from lt b py_lt_True_ts_le[of sp r rb] have "ts_le sp r rb" by simp
      with Step(5) pb that show ?thesis by (auto intro: sorted_by_timestamp_bound)
    qed
    from o la lb have "\<forall>x\<in>set outs. ts_le sp r x" by blast
    with o ok have "sorted_by_timestamp sp (r # outs)" by (simp add: sorted_by_timestamp_Cons)
    moreover from y o have "yielded (evs1 @ evs2) = map Some (r # outs)"
      by (simp add: yielded_def yields_append)
    moreover from o p have "set (r # outs) \<subseteq> set (pending_a s) \<union> set (pending_b s)" by auto
    ultimately show ?thesis by blast
  next
    fix r
    assume b: "log_b_record s = Some r" and lt: "py_lt sp (log_a_record s) (Some r) = Inr False"
      and y: "yields evs1 = [(LogB, Some r)]" and p: "pending_b s = r # pending_b s'"
      and q: "pending_a s' = pending_a s"
    from Step(5) p have sb: "sorted_by_timestamp sp (pending_b s')" and ok: "ts_ok sp r"
      and lb: "\<forall>x\<in>set (pending_b s'). ts_le sp r x"
      by (simp_all add: sorted_by_timestamp_Cons)
    from Step(3)[OF _ sb] Step(4) q obtain outs where o: "yielded evs2 = map Some outs"
      "sorted_by_timestamp sp outs" "set outs \<subseteq> set (pending_a s) \<union> set (pending_b s')"
      by auto
    have la: "ts_le sp r x" if "x \<in> set (pending_a s)" for x
      using pending_a_cases[of s]
    proof (elim disjE exE conjE)
      assume "pending_a s = []" with that show ?thesis by simp
    next
      fix ra t assume a: "log_a_record s = Some ra" and pa: "pending_a s = ra # t"
      from lt a py_lt_False_ts_le[of sp ra r] have "ts_le sp r ra" by simp
      with Step(4) pa that show ?thesis by (auto intro: sorted_by_timestamp_bound)
    qed
    from o la lb have "\<forall>x\<in>set outs. ts_le sp r x" by blast
    with o ok have "sorted_by_timestamp sp (r # outs)" by (simp add: sorted_by_timestamp_Cons)
    moreover from y o have "yielded (evs1 @ evs2) = map Some (r # outs)"
      by (simp add: yielded_def yields_append)
    moreover from o p have "set (r # outs) \<subseteq> set (pending_a s) \<union> set (pending_b s)" by auto
    ultimately show ?thesis by blast
  qed
qed

text \<open>
  C1. When the records each reader yields are sorted by parsed timestamp (every timestamp
  parses, and none is later than that of a record after it), the output of the merge is a
  sequence of records sorted by parsed timestamp. This holds for every run, also one that a
  reader ends with an exception.
\<close>

theorem output_sorted:
  assumes "get_output_record json_loads strptime log_a_path log_b_path = (evs, out)"
    and "sorted_by_timestamp strptime (gen_items (get_record json_loads log_a_path))"
    and "sorted_by_timestamp strptime (gen_items (get_record json_loads log_b_path))"
  shows "\<exists>outs. yielded evs = map Some outs \<and> sorted_by_timestamp strptime outs"
proof -
  from assms(1) have "get_output_record_from strptime (get_record json_loads log_a_path)
      (get_record json_loads log_b_path) = (evs, out)"
    by (simp add: get_output_record_def)
  then show ?thesis
  proof (cases rule: get_output_record_from_cases)
    case (Early e)
    then show ?thesis
      by (intro exI[of _ "[]"]) (simp add: yielded_def sorted_by_timestamp_def)
  next
    case (Loop s0 acts evs0)
    from merge_loop_sorted[OF Loop(1)] assms(2,3) Loop(4,5)
    obtain outs where "yielded evs0 = map Some outs" "sorted_by_timestamp strptime outs"
      by auto
    with Loop(2,3) show ?thesis by (auto simp: yielded_def yields_append)
  qed
qed

lemma example_ac_sorted:
  "sorted_by_timestamp strptime_padded [rec_a, rec_c]"
  by code_simp

lemma example_b_sorted:
  "sorted_by_timestamp strptime_padded [rec_b]"
  by code_simp

lemma example_ac_b_yielded:
  "yielded (fst (get_output_record json_loads_example strptime_padded
          (log_file [row_a, row_c]) (log_file [row_b])))
     = [Some rec_a, Some rec_b, Some rec_c]"
  by code_simp

theorem output_sorted_witness:
  "sorted_by_timestamp strptime_padded (gen_items (get_record json_loads_example (log_file [row_a, row_c])))
   \<and> sorted_by_timestamp strptime_padded (gen_items (get_record json_loads_example (log_file [row_b])))
   \<and> (\<exists>outs. [Some rec_a, Some rec_b, Some rec_c] = map Some outs
          \<and> sorted_by_timestamp strptime_padded outs)"
proof -
  have sa: "sorted_by_timestamp strptime_padded
      (gen_items (get_record json_loads_example (log_file [row_a, row_c])))"
    by (simp only: example_ac_records example_ac_sorted)
  have sb: "sorted_by_timestamp strptime_padded
      (gen_items (get_record json_loads_example (log_file [row_b])))"
    by (simp only: example_b_records example_b_sorted)
  from output_sorted[OF surjective_pairing sa sb] sa sb show ?thesis
    by (simp only: example_ac_b_yielded simp_thms)
qed

section \<open>The step rule\<close>

text \<open>
  C5. One step of the loop is the step of the specification: with both lookaheads present
  it emits \<open>A\<close>'s record and advances \<open>A\<close> exactly when \<open>A\<close>'s parsed timestamp is strictly
  earlier than \<open>B\<close>'s, and otherwise emits \<open>B\<close>'s record and advances \<open>B\<close>; with exactly one
  side exhausted it emits the other side's lookahead and advances that side.
\<close>

theorem merge_step_is_spec_step: "merge_step strptime s = spec_step strptime s"
proof (cases "log_a_record s")
  case None
  show ?thesis
  proof (cases "log_b_record s")
    case bn: None
    with None show ?thesis by (simp add: merge_step_def spec_step_def)
  next
    case (Some b)
    with None show ?thesis
      by (cases "gen_next (log_b_records s)")
        (auto simp: merge_step_def spec_step_def emit_and_advance_def LogRecord_gt_def
          split: pulled.splits)
  qed
next
  case (Some a)
  show ?thesis
  proof (cases "log_b_record s")
    case None
    with Some show ?thesis
      by (cases "gen_next (log_a_records s)")
        (auto simp: merge_step_def spec_step_def emit_and_advance_def LogRecord_lt_def
          split: pulled.splits)
  next
    case sb: (Some b)
    with Some show ?thesis
      by (cases "gen_next (log_a_records s)"; cases "gen_next (log_b_records s)")
        (auto simp: merge_step_def spec_step_def emit_and_advance_def LogRecord_lt_def
          split: pulled.splits sum.splits)
  qed
qed

theorem merge_step_is_spec_step_witness:
  "spec_step strptime_padded
     \<lparr>log_a_record = Some rec_a, log_b_record = Some rec_b,
      log_a_records = Yields [ReadRow row_c] rec_c (Stops []), log_b_records = Stops []\<rparr>
   = ([Yield LogA (Some rec_a), Io LogA (ReadRow row_c)],
      Inr \<lparr>log_a_record = Some rec_c, log_b_record = Some rec_b,
           log_a_records = Stops [], log_b_records = Stops []\<rparr>)
   \<and> spec_step strptime_padded
     \<lparr>log_a_record = Some rec_c, log_b_record = Some rec_b,
      log_a_records = Stops [], log_b_records = Stops []\<rparr>
   = ([Yield LogB (Some rec_b)],
      Inr \<lparr>log_a_record = Some rec_c, log_b_record = None,
           log_a_records = Stops [], log_b_records = Stops []\<rparr>)
   \<and> spec_step strptime_padded
     \<lparr>log_a_record = Some rec_c, log_b_record = None,
      log_a_records = Stops [], log_b_records = Stops []\<rparr>
   = ([Yield LogA (Some rec_c)],
      Inr \<lparr>log_a_record = None, log_b_record = None,
           log_a_records = Stops [], log_b_records = Stops []\<rparr>)"
  unfolding merge_step_is_spec_step[symmetric] by code_simp

section \<open>Empty inputs\<close>

text \<open>
  C3. An empty side is not passed through. The first \<^verbatim>\<open>next\<close> on a reader of an empty
  file raises \<^verbatim>\<open>StopIteration\<close> outside any \<^verbatim>\<open>try\<close>, and the run ends with a
  \<^verbatim>\<open>RuntimeError\<close> before anything is yielded: with \<open>A\<close> empty, with \<open>B\<close> empty, and with
  both empty.
\<close>

theorem empty_side_raises:
  "get_output_record json_loads_example strptime_padded (log_file []) (log_file [row_b])
     = ([Io LogA CheckPath, Io LogA OpenFile], Failed RuntimeError)
   \<and> get_output_record json_loads_example strptime_padded (log_file [row_a, row_c]) (log_file [])
     = ([Io LogA CheckPath, Io LogA OpenFile, Io LogA (ReadRow row_a),
         Io LogB CheckPath, Io LogB OpenFile], Failed RuntimeError)
   \<and> get_output_record json_loads_example strptime_padded (log_file []) (log_file [])
     = ([Io LogA CheckPath, Io LogA OpenFile], Failed RuntimeError)"
  by code_simp

section \<open>An exhausted side and unparsed timestamps\<close>

lemma merge_loop_a_exhausted:
  "yields (fst (merge_loop sp \<lparr>log_a_record = None, log_b_record = Some b,
                               log_a_records = ga, log_b_records = gb\<rparr>))
     = map (\<lambda>r. (LogB, Some r)) (b # gen_items gb)
   \<and> snd (merge_loop sp \<lparr>log_a_record = None, log_b_record = Some b,
                         log_a_records = ga, log_b_records = gb\<rparr>)
     = (case gen_end gb of None \<Rightarrow> Finished | Some e \<Rightarrow> Failed e)"
proof (induction gb arbitrary: b)
  case (Yields acts x g)
  then show ?case
    by (subst (1 2) merge_loop.simps)
      (simp add: merge_step_def LogRecord_gt_def yields_append yields_map_Io case_prod_beta)
next
  case (Stops acts)
  show ?case
    by (subst (1 2) merge_loop.simps, simp add: merge_step_def LogRecord_gt_def,
        subst (1 2) merge_loop.simps, simp add: merge_step_def yields_map_Io)
next
  case (Raises acts e)
  show ?case
    by (subst (1 2) merge_loop.simps) (simp add: merge_step_def LogRecord_gt_def yields_map_Io)
qed

lemma merge_loop_b_exhausted:
  "yields (fst (merge_loop sp \<lparr>log_a_record = Some a, log_b_record = None,
                               log_a_records = ga, log_b_records = gb\<rparr>))
     = map (\<lambda>r. (LogA, Some r)) (a # gen_items ga)
   \<and> snd (merge_loop sp \<lparr>log_a_record = Some a, log_b_record = None,
                         log_a_records = ga, log_b_records = gb\<rparr>)
     = (case gen_end ga of None \<Rightarrow> Finished | Some e \<Rightarrow> Failed e)"
proof (induction ga arbitrary: a)
  case (Yields acts x g)
  then show ?case
    by (subst (1 2) merge_loop.simps)
      (simp add: merge_step_def LogRecord_lt_def yields_append yields_map_Io case_prod_beta)
next
  case (Stops acts)
  show ?case
    by (subst (1 2) merge_loop.simps, simp add: merge_step_def LogRecord_lt_def,
        subst (1 2) merge_loop.simps, simp add: merge_step_def yields_map_Io)
next
  case (Raises acts e)
  show ?case
    by (subst (1 2) merge_loop.simps) (simp add: merge_step_def LogRecord_lt_def yields_map_Io)
qed

text \<open>
  C10. The reader never parses a timestamp (\<open>get_record\<close> has no \<open>strptime\<close>), and once one
  side's lookahead is \<^verbatim>\<open>None\<close> the loop yields the other side's lookahead and every
  record its reader still yields, whatever \<open>strptime\<close> would make of their timestamps: the
  result is the same for every \<open>strptime\<close>, also for one that raises on every string. The
  run then ends as that reader ends.
\<close>

theorem exhausted_side_emits_without_parsing:
  "yielded (fst (merge_loop strptime \<lparr>log_a_record = None, log_b_record = Some b,
                                     log_a_records = ga, log_b_records = gb\<rparr>))
     = map Some (b # gen_items gb)
   \<and> snd (merge_loop strptime \<lparr>log_a_record = None, log_b_record = Some b,
                               log_a_records = ga, log_b_records = gb\<rparr>)
     = (case gen_end gb of None \<Rightarrow> Finished | Some e \<Rightarrow> Failed e)
   \<and> yielded (fst (merge_loop strptime \<lparr>log_a_record = Some a, log_b_record = None,
                                     log_a_records = ga, log_b_records = gb\<rparr>))
     = map Some (a # gen_items ga)
   \<and> snd (merge_loop strptime \<lparr>log_a_record = Some a, log_b_record = None,
                               log_a_records = ga, log_b_records = gb\<rparr>)
     = (case gen_end ga of None \<Rightarrow> Finished | Some e \<Rightarrow> Failed e)"
  using merge_loop_a_exhausted[of strptime b ga gb] merge_loop_b_exhausted[of strptime a ga gb]
  by (simp add: yielded_def comp_def)

theorem exhausted_side_emits_without_parsing_witness:
  "LogRecord_timestamp strptime_padded rec_z = Inl ValueError_strptime
   \<and> yielded (fst (merge_loop strptime_padded
        \<lparr>log_a_record = None, log_b_record = Some rec_b,
         log_a_records = Stops [], log_b_records = Yields [ReadRow row_z] rec_z (Stops [])\<rparr>))
       = [Some rec_b, Some rec_z]
   \<and> snd (merge_loop strptime_padded
        \<lparr>log_a_record = None, log_b_record = Some rec_b,
         log_a_records = Stops [], log_b_records = Yields [ReadRow row_z] rec_z (Stops [])\<rparr>)
       = Finished
   \<and> get_output_record json_loads_example strptime_padded
         (log_file [row_a]) (log_file [row_b, row_z])
       = ([Io LogA CheckPath, Io LogA OpenFile, Io LogA (ReadRow row_a),
           Io LogB CheckPath, Io LogB OpenFile, Io LogB (ReadRow row_b),
           Yield LogA (Some rec_a), Yield LogB (Some rec_b), Io LogB (ReadRow row_z),
           Yield LogB (Some rec_z)], Finished)"
proof -
  have "LogRecord_timestamp strptime_padded rec_z = Inl ValueError_strptime"
    by code_simp
  moreover have "get_output_record json_loads_example strptime_padded
         (log_file [row_a]) (log_file [row_b, row_z])
       = ([Io LogA CheckPath, Io LogA OpenFile, Io LogA (ReadRow row_a),
           Io LogB CheckPath, Io LogB OpenFile, Io LogB (ReadRow row_b),
           Yield LogA (Some rec_a), Yield LogB (Some rec_b), Io LogB (ReadRow row_z),
           Yield LogB (Some rec_z)], Finished)"
    by code_simp
  ultimately show ?thesis
    using exhausted_side_emits_without_parsing[of strptime_padded rec_b "Stops []"
        "Yields [ReadRow row_z] rec_z (Stops [])"]
    by simp
qed

section \<open>Equal timestamps\<close>

lemma yields_in_yielded_by: "(sd, v) \<in> set (yields evs) \<longleftrightarrow> v \<in> set (yielded_by sd evs)"
  by (force simp: yielded_by_def)

lemma prefix_map_Some_mem:
  assumes "prefix xs (map Some ys)" and "Some y \<in> set xs"
  shows "y \<in> set ys"
proof -
  from assms(1) have "set xs \<subseteq> set (map Some ys)" by (rule set_mono_prefix)
  with assms(2) show ?thesis by auto
qed

lemma merge_loop_b_first:
  assumes "merge_loop sp s = (evs, out)" and "sorted_by_timestamp sp (pending_b s)"
    and "yields evs = pre @ (LogA, Some x) # post" and "(LogB, Some y) \<in> set post"
  shows "\<exists>dx dy. LogRecord_timestamp sp x = Inr dx \<and> LogRecord_timestamp sp y = Inr dy \<and> dx < dy"
  using assms
proof (induction arbitrary: pre rule: merge_loop_result_induct)
  case (Stop s evs out)
  from merge_step_stops_yields[OF Stop(1)] Stop(3,4) show ?case
    by (auto simp: Cons_eq_append_conv append_eq_Cons_conv)
next
  case (Step s evs1 s' evs2 out)
  from merge_step_continues[OF Step(1)] show ?case
  proof (elim disjE exE conjE)
    fix r
    assume lt: "py_lt sp (Some r) (log_b_record s) = Inr True"
      and y: "yields evs1 = [(LogA, Some r)]" and q: "pending_b s' = pending_b s"
    show ?thesis
    proof (cases pre)
      case Nil
      with Step(5) y have x: "x = r" and post: "post = yields evs2"
        by (simp_all add: yields_append)
      from Step(6) post have "Some y \<in> set (yielded_by LogB evs2)"
        by (simp add: yields_in_yielded_by)
      with merge_loop_sides[OF Step(2)] q have iny: "y \<in> set (pending_b s)"
        by (auto dest: prefix_map_Some_mem)
      with pending_b_cases[of s] obtain rb t where b: "log_b_record s = Some rb"
        and pb: "pending_b s = rb # t" by auto
      from lt b have "LogRecord_lt sp r (Some rb) = Inr True" by simp
      moreover from Step(4) pb iny have "y = rb \<or> ts_le sp rb y"
        by (auto simp: sorted_by_timestamp_Cons)
      moreover from Step(4) pb have "ts_ok sp rb" by (simp add: sorted_by_timestamp_Cons)
      ultimately show ?thesis unfolding x
        by (auto simp: LogRecord_lt_def ts_le_def ts_ok_def split: sum.splits)
    next
      case (Cons p pre')
      with Step(5) y have "yields evs2 = pre' @ (LogA, Some x) # post"
        by (simp add: yields_append)
      from Step(3)[OF _ this Step(6)] Step(4) q show ?thesis by simp
    qed
  next
    fix r
    assume y: "yields evs1 = [(LogB, Some r)]" and p: "pending_b s = r # pending_b s'"
    from Step(4) p have sb: "sorted_by_timestamp sp (pending_b s')"
      by (simp add: sorted_by_timestamp_Cons)
    from Step(5) y obtain pre' where "yields evs2 = pre' @ (LogA, Some x) # post"
      by (cases pre) (auto simp: yields_append)
    from Step(3)[OF sb this Step(6)] show ?thesis .
  qed
qed

text \<open>
  C4, as the code has it. On equal parsed timestamps the merge favours the right source:
  when the run ends without an exception and the records of \<open>B\<close> are sorted by parsed
  timestamp, a record \<open>x\<close> of \<open>A\<close> and a record \<open>y\<close> of \<open>B\<close> with the same parsed timestamp are
  both yielded, \<open>x\<close> by the first branch and \<open>y\<close> by the second, and every yield of \<open>y\<close> from
  \<open>B\<close> comes before every yield of \<open>x\<close> from \<open>A\<close>. (The order of \<open>A\<close> plays no part in this.)
\<close>

theorem ties_favour_log_b:
  assumes run: "get_output_record json_loads strptime log_a_path log_b_path = (evs, Finished)"
    and sb: "sorted_by_timestamp strptime (gen_items (get_record json_loads log_b_path))"
    and x: "x \<in> set (gen_items (get_record json_loads log_a_path))"
    and y: "y \<in> set (gen_items (get_record json_loads log_b_path))"
    and tx: "LogRecord_timestamp strptime x = Inr d"
    and ty: "LogRecord_timestamp strptime y = Inr d"
  shows "(\<exists>i<length (yields evs). yields evs ! i = (LogA, Some x))
       \<and> (\<exists>j<length (yields evs). yields evs ! j = (LogB, Some y))
       \<and> (\<forall>i j. i < length (yields evs) \<and> yields evs ! i = (LogA, Some x)
                \<and> j < length (yields evs) \<and> yields evs ! j = (LogB, Some y) \<longrightarrow> j < i)"
proof -
  from run have from_run: "get_output_record_from strptime (get_record json_loads log_a_path)
      (get_record json_loads log_b_path) = (evs, Finished)"
    by (simp add: get_output_record_def)
  from get_output_record_from_sides[OF from_run] x y
  have "Some x \<in> set (yielded_by LogA evs)" "Some y \<in> set (yielded_by LogB evs)"
    by simp_all
  then have "(LogA, Some x) \<in> set (yields evs)" "(LogB, Some y) \<in> set (yields evs)"
    by (simp_all add: yields_in_yielded_by)
  then have ex: "\<exists>i<length (yields evs). yields evs ! i = (LogA, Some x)"
    "\<exists>j<length (yields evs). yields evs ! j = (LogB, Some y)"
    by (simp_all add: in_set_conv_nth)
  have order: "j < i" if i: "i < length (yields evs)" "yields evs ! i = (LogA, Some x)"
    and j: "j < length (yields evs)" "yields evs ! j = (LogB, Some y)" for i j
  proof (rule ccontr)
    assume "\<not> j < i"
    moreover from i(2) j(2) have "i \<noteq> j" by auto
    ultimately have lt: "i < j" by simp
    from id_take_nth_drop[OF i(1)] i(2)
    have split: "yields evs = take i (yields evs) @ (LogA, Some x) # drop (Suc i) (yields evs)"
      by simp
    from lt j have "drop (Suc i) (yields evs) ! (j - Suc i) = (LogB, Some y)"
      "j - Suc i < length (drop (Suc i) (yields evs))"
      by simp_all
    then have mem: "(LogB, Some y) \<in> set (drop (Suc i) (yields evs))"
      by (metis nth_mem)
    from from_run show False
    proof (cases rule: get_output_record_from_cases)
      case (Early e)
      then show False by simp
    next
      case (Loop s0 acts evs0)
      then have ys: "yields evs = yields evs0" by (simp add: yields_append)
      from merge_loop_b_first[OF Loop(1) _ split[unfolded ys] mem[unfolded ys]] sb Loop(5) tx ty
      show False by simp
    qed
  qed
  from ex order show ?thesis by blast
qed

theorem ties_favour_log_b_witness:
  "snd (get_output_record json_loads_example strptime_padded
          (log_file [row_a]) (log_file [row_y])) = Finished
   \<and> sorted_by_timestamp strptime_padded
        (gen_items (get_record json_loads_example (log_file [row_y])))
   \<and> rec_a \<in> set (gen_items (get_record json_loads_example (log_file [row_a])))
   \<and> rec_y \<in> set (gen_items (get_record json_loads_example (log_file [row_y])))
   \<and> LogRecord_timestamp strptime_padded rec_a = Inr (2024, 1, 1, 0, 0, 1)
   \<and> LogRecord_timestamp strptime_padded rec_y = Inr (2024, 1, 1, 0, 0, 1)
   \<and> (\<exists>i j. j < i
         \<and> yields (fst (get_output_record json_loads_example strptime_padded
              (log_file [row_a]) (log_file [row_y]))) ! j = (LogB, Some rec_y)
         \<and> yields (fst (get_output_record json_loads_example strptime_padded
              (log_file [row_a]) (log_file [row_y]))) ! i = (LogA, Some rec_a))"
proof -
  have fin: "snd (get_output_record json_loads_example strptime_padded
          (log_file [row_a]) (log_file [row_y])) = Finished"
    by code_simp
  then have run: "get_output_record json_loads_example strptime_padded
          (log_file [row_a]) (log_file [row_y])
        = (fst (get_output_record json_loads_example strptime_padded
          (log_file [row_a]) (log_file [row_y])), Finished)"
    by (simp add: prod_eq_iff)
  have sb: "sorted_by_timestamp strptime_padded
        (gen_items (get_record json_loads_example (log_file [row_y])))"
    by code_simp
  have x: "rec_a \<in> set (gen_items (get_record json_loads_example (log_file [row_a])))"
    by code_simp
  have y: "rec_y \<in> set (gen_items (get_record json_loads_example (log_file [row_y])))"
    by code_simp
  have tx: "LogRecord_timestamp strptime_padded rec_a = Inr (2024, 1, 1, 0, 0, 1)"
    by code_simp
  have ty: "LogRecord_timestamp strptime_padded rec_y = Inr (2024, 1, 1, 0, 0, 1)"
    by code_simp
  from ties_favour_log_b[OF run sb x y tx ty]
  have "\<exists>i j. j < i
         \<and> yields (fst (get_output_record json_loads_example strptime_padded
              (log_file [row_a]) (log_file [row_y]))) ! j = (LogB, Some rec_y)
         \<and> yields (fst (get_output_record json_loads_example strptime_padded
              (log_file [row_a]) (log_file [row_y]))) ! i = (LogA, Some rec_a)"
    by blast
  with fin sb x y tx ty show ?thesis by blast
qed

text \<open>
  C4 as stated fails: with one record in each file and the same timestamp in both, the
  record of \<open>B\<close> is yielded first and the record of \<open>A\<close> second.
\<close>

theorem left_not_favoured_on_ties:
  "LogRecord_timestamp strptime_padded rec_a = Inr (2024, 1, 1, 0, 0, 1)
   \<and> LogRecord_timestamp strptime_padded rec_y = Inr (2024, 1, 1, 0, 0, 1)
   \<and> sorted_by_timestamp strptime_padded [rec_a]
   \<and> sorted_by_timestamp strptime_padded [rec_y]
   \<and> gen_items (get_record json_loads_example (log_file [row_a])) = [rec_a]
   \<and> gen_items (get_record json_loads_example (log_file [row_y])) = [rec_y]
   \<and> get_output_record json_loads_example strptime_padded (log_file [row_a]) (log_file [row_y])
       = ([Io LogA CheckPath, Io LogA OpenFile, Io LogA (ReadRow row_a),
           Io LogB CheckPath, Io LogB OpenFile, Io LogB (ReadRow row_y),
           Yield LogB (Some rec_y), Yield LogA (Some rec_a)], Finished)"
  by code_simp

section \<open>Termination\<close>

lemma merge_loop_fuel_enough:
  "state_size s < n \<Longrightarrow> merge_loop_fuel n sp s = Some (merge_loop sp s)"
proof (induction sp s arbitrary: n rule: merge_loop.induct)
  case (1 sp s)
  from "1.prems" obtain m where n: "n = Suc m" by (cases n) auto
  obtain evs r where st: "merge_step sp s = (evs, r)" by force
  show ?case
  proof (cases r)
    case (Inl out1)
    with st n show ?thesis by (simp add: merge_loop.simps[of sp s])
  next
    case (Inr s')
    with st have "state_size s' < state_size s" by (auto dest: merge_step_decreases)
    with "1.prems" n have "state_size s' < m" by simp
    from "1.IH"[OF st[symmetric] Inr this] st Inr n show ?thesis
      by (simp add: merge_loop.simps[of sp s] case_prod_beta)
  qed
qed

lemma merge_step_Finished_iff:
  "snd (merge_step sp s) = Inl Finished \<longleftrightarrow> log_a_record s = None \<and> log_b_record s = None"
proof (cases "log_a_record s = None \<and> log_b_record s = None")
  case True
  then show ?thesis by (simp add: merge_step_def)
next
  case False
  obtain evs r where st: "merge_step sp s = (evs, r)" by force
  have "r \<noteq> Inl Finished"
  proof
    assume "r = Inl Finished"
    with st merge_step_stops[of sp s evs Finished] False show False by auto
  qed
  with st False show ?thesis by simp
qed

text \<open>
  C8. The loop ends: from any state it has ended after at most one more test of its
  condition than there are records pending, and a test ends it normally exactly when both
  lookaheads are \<^verbatim>\<open>None\<close>. The output of a run is finite: it has at most as many values
  as the two readers yield records.
\<close>

theorem merge_terminates:
  "merge_loop_fuel (Suc (state_size s)) strptime s = Some (merge_loop strptime s)
   \<and> (snd (merge_step strptime s) = Inl Finished)
       = (log_a_record s = None \<and> log_b_record s = None)
   \<and> length (yielded (fst (get_output_record_from strptime ga gb)))
       \<le> length (gen_items ga) + length (gen_items gb)"
proof -
  obtain evs out where run: "get_output_record_from strptime ga gb = (evs, out)" by force
  from get_output_record_from_sides[OF run]
  have "length (yielded_by LogA evs) \<le> length (map Some (gen_items ga))"
    "length (yielded_by LogB evs) \<le> length (map Some (gen_items gb))"
    by (auto dest: prefix_length_le)
  moreover from arg_cong[OF mset_yielded_sides[of evs], of size]
  have "length (yielded evs) = length (yielded_by LogA evs) + length (yielded_by LogB evs)"
    by simp
  ultimately have "length (yielded (fst (get_output_record_from strptime ga gb)))
       \<le> length (gen_items ga) + length (gen_items gb)"
    by (simp add: run)
  then show ?thesis
    using merge_loop_fuel_enough[of s "Suc (state_size s)" strptime]
      merge_step_Finished_iff[of strptime s]
    by simp
qed

theorem merge_terminates_witness:
  "merge_loop_fuel 4 strptime_padded
      \<lparr>log_a_record = Some rec_a, log_b_record = Some rec_b,
       log_a_records = Yields [ReadRow row_c] rec_c (Stops []), log_b_records = Stops []\<rparr>
     = Some ([Yield LogA (Some rec_a), Io LogA (ReadRow row_c), Yield LogB (Some rec_b),
              Yield LogA (Some rec_c)], Finished)
   \<and> snd (merge_step strptime_padded
      \<lparr>log_a_record = Some rec_a, log_b_record = Some rec_b,
       log_a_records = Yields [ReadRow row_c] rec_c (Stops []), log_b_records = Stops []\<rparr>)
     \<noteq> Inl Finished
   \<and> length (yielded (fst (get_output_record_from strptime_padded
        (get_record json_loads_example (log_file [row_a, row_c]))
        (get_record json_loads_example (log_file [row_b]))))) \<le> 3"
proof -
  have sz: "Suc (state_size
      \<lparr>log_a_record = Some rec_a, log_b_record = Some rec_b,
       log_a_records = Yields [ReadRow row_c] rec_c (Stops []), log_b_records = Stops []\<rparr>) = 4"
    by (simp add: state_size_def)
  have run: "merge_loop strptime_padded
      \<lparr>log_a_record = Some rec_a, log_b_record = Some rec_b,
       log_a_records = Yields [ReadRow row_c] rec_c (Stops []), log_b_records = Stops []\<rparr>
     = ([Yield LogA (Some rec_a), Io LogA (ReadRow row_c), Yield LogB (Some rec_b),
              Yield LogA (Some rec_c)], Finished)"
    by code_simp
  from merge_terminates[of
      "\<lparr>log_a_record = Some rec_a, log_b_record = Some rec_b,
       log_a_records = Yields [ReadRow row_c] rec_c (Stops []), log_b_records = Stops []\<rparr>"
      strptime_padded "get_record json_loads_example (log_file [row_a, row_c])"
      "get_record json_loads_example (log_file [row_b])"]
  show ?thesis
    unfolding sz run by (simp add: example_ac_records example_b_records)
qed

section \<open>Determinism\<close>

lemma strip_io_determined:
  "gen_items g = gen_items g' \<Longrightarrow> gen_end g = gen_end g' \<Longrightarrow> strip_io g = strip_io g'"
proof (induction g arbitrary: g')
  case (Yields acts x g)
  show ?case
  proof (cases g')
    case y': (Yields acts' x' h)
    with Yields.prems have "x = x'" "gen_items g = gen_items h" "gen_end g = gen_end h"
      by simp_all
    with Yields.IH[of h] y' show ?thesis by simp
  next
    case (Stops acts')
    with Yields.prems show ?thesis by simp
  next
    case (Raises acts' e)
    with Yields.prems show ?thesis by simp
  qed
next
  case (Stops acts)
  then show ?case by (cases g') simp_all
next
  case (Raises acts e)
  then show ?case by (cases g') simp_all
qed

lemma gen_next_strip_io:
  "gen_next (strip_io g) = (case gen_next g of (acts, p, g') \<Rightarrow> ([], p, strip_io g'))"
  by (cases g) auto

lemma strip_state_simps [simp]:
  "log_a_record (strip_state s) = log_a_record s"
  "log_b_record (strip_state s) = log_b_record s"
  "log_a_records (strip_state s) = strip_io (log_a_records s)"
  "log_b_records (strip_state s) = strip_io (log_b_records s)"
  by (simp_all add: strip_state_def)

lemma strip_state_update [simp]:
  "strip_state (s\<lparr>log_a_record := a, log_a_records := g\<rparr>)
     = (strip_state s)\<lparr>log_a_record := a, log_a_records := strip_io g\<rparr>"
  "strip_state (s\<lparr>log_b_record := b, log_b_records := g\<rparr>)
     = (strip_state s)\<lparr>log_b_record := b, log_b_records := strip_io g\<rparr>"
  by (simp_all add: strip_state_def)

lemma merge_step_strip:
  assumes "merge_step sp s = (evs, r)"
  shows "\<exists>evs'. merge_step sp (strip_state s) = (evs', map_sum id strip_state r)
           \<and> yields evs' = yields evs"
proof (cases "log_a_record s \<noteq> None \<or> log_b_record s \<noteq> None")
  case False
  then have "merge_step sp s = ([], Inl Finished)"
    "merge_step sp (strip_state s) = ([], Inl Finished)"
    by (simp_all add: merge_step_def)
  with assms show ?thesis by auto
next
  case live: True
  show ?thesis
  proof (cases "py_lt sp (log_a_record s) (log_b_record s)")
    case (Inl e)
    with live have "merge_step sp s = ([], Inl (Failed e))"
      "merge_step sp (strip_state s) = ([], Inl (Failed e))"
      by (simp_all add: merge_step_def)
    with assms show ?thesis by auto
  next
    case (Inr t)
    show ?thesis
    proof (cases t)
      case True
      obtain acts p g where n: "gen_next (log_a_records s) = (acts, p, g)"
        by (cases "gen_next (log_a_records s)") auto
      then have n': "gen_next (strip_io (log_a_records s)) = ([], p, strip_io g)"
        by (simp add: gen_next_strip_io)
      from live Inr True n n' assms show ?thesis
        by (cases p) (auto simp: merge_step_def yields_map_Io)
    next
      case False
      obtain acts p g where n: "gen_next (log_b_records s) = (acts, p, g)"
        by (cases "gen_next (log_b_records s)") auto
      then have n': "gen_next (strip_io (log_b_records s)) = ([], p, strip_io g)"
        by (simp add: gen_next_strip_io)
      from live Inr False n n' assms show ?thesis
        by (cases p) (auto simp: merge_step_def yields_map_Io)
    qed
  qed
qed

lemma merge_loop_strip:
  assumes "merge_loop sp s = (evs, out)"
  shows "yields (fst (merge_loop sp (strip_state s))) = yields evs
       \<and> snd (merge_loop sp (strip_state s)) = out"
  using assms
proof (induction rule: merge_loop_result_induct)
  case (Stop s evs out)
  from merge_step_strip[OF Stop] show ?case
    by (auto simp: merge_loop.simps[of sp "strip_state s"])
next
  case (Step s evs1 s' evs2 out)
  from merge_step_strip[OF Step(1)] Step(3) show ?case
    by (auto simp: merge_loop.simps[of sp "strip_state s"] case_prod_beta yields_append)
qed

lemma get_output_record_from_strip:
  "yields (fst (get_output_record_from sp (strip_io ga) (strip_io gb)))
     = yields (fst (get_output_record_from sp ga gb))
   \<and> snd (get_output_record_from sp (strip_io ga) (strip_io gb))
     = snd (get_output_record_from sp ga gb)"
proof (cases ga)
  case ya: (Yields acts_a a ga')
  show ?thesis
  proof (cases gb)
    case (Yields acts_b b gb')
    define s0 where "s0 = \<lparr>log_a_record = Some a, log_b_record = Some b,
                        log_a_records = ga', log_b_records = gb'\<rparr>"
    have st: "strip_state s0 = \<lparr>log_a_record = Some a, log_b_record = Some b,
                        log_a_records = strip_io ga', log_b_records = strip_io gb'\<rparr>"
      by (simp add: s0_def strip_state_def)
    from merge_loop_strip[OF surjective_pairing, of sp s0] ya Yields show ?thesis
      by (simp add: get_output_record_from_def case_prod_beta yields_append yields_map_Io
          st s0_def[symmetric])
  next
    case (Stops acts_b)
    with ya show ?thesis
      by (simp add: get_output_record_from_def yields_append yields_map_Io)
  next
    case (Raises acts_b e)
    with ya show ?thesis
      by (simp add: get_output_record_from_def yields_append yields_map_Io)
  qed
next
  case (Stops acts_a)
  then show ?thesis by (simp add: get_output_record_from_def yields_map_Io)
next
  case (Raises acts_a e)
  then show ?thesis by (simp add: get_output_record_from_def yields_map_Io)
qed

text \<open>
  C9. The output is a function of the two input sequences alone. Two runs whose readers
  yield the same records and end alike (by \<^verbatim>\<open>StopIteration\<close>, or with the same
  exception) make the same yields in the same order, each from the same branch, and end
  alike, whatever files, rows and \<^verbatim>\<open>json.loads\<close> the records came from. So a record of
  \<open>A\<close> and a record of \<open>B\<close> with equal timestamps come out in the same relative order in
  every run.
\<close>

theorem output_determined_by_input_sequences:
  assumes "gen_items (get_record json_loads log_a_path) = gen_items (get_record json_loads' log_a_path')"
    and "gen_end (get_record json_loads log_a_path) = gen_end (get_record json_loads' log_a_path')"
    and "gen_items (get_record json_loads log_b_path) = gen_items (get_record json_loads' log_b_path')"
    and "gen_end (get_record json_loads log_b_path) = gen_end (get_record json_loads' log_b_path')"
  shows "yields (fst (get_output_record json_loads strptime log_a_path log_b_path))
           = yields (fst (get_output_record json_loads' strptime log_a_path' log_b_path'))
       \<and> snd (get_output_record json_loads strptime log_a_path log_b_path)
           = snd (get_output_record json_loads' strptime log_a_path' log_b_path')"
proof -
  let ?ga = "get_record json_loads log_a_path" and ?gb = "get_record json_loads log_b_path"
  let ?ga' = "get_record json_loads' log_a_path'" and ?gb' = "get_record json_loads' log_b_path'"
  have a: "strip_io ?ga = strip_io ?ga'" by (rule strip_io_determined[OF assms(1,2)])
  have b: "strip_io ?gb = strip_io ?gb'" by (rule strip_io_determined[OF assms(3,4)])
  have "yields (fst (get_output_record_from strptime ?ga ?gb))
      = yields (fst (get_output_record_from strptime (strip_io ?ga) (strip_io ?gb)))"
    by (simp add: get_output_record_from_strip)
  also have "\<dots> = yields (fst (get_output_record_from strptime (strip_io ?ga') (strip_io ?gb')))"
    by (simp only: a b)
  also have "\<dots> = yields (fst (get_output_record_from strptime ?ga' ?gb'))"
    by (simp add: get_output_record_from_strip)
  finally have y: "yields (fst (get_output_record_from strptime ?ga ?gb))
      = yields (fst (get_output_record_from strptime ?ga' ?gb'))" .
  have "snd (get_output_record_from strptime ?ga ?gb)
      = snd (get_output_record_from strptime (strip_io ?ga) (strip_io ?gb))"
    by (simp add: get_output_record_from_strip)
  also have "\<dots> = snd (get_output_record_from strptime (strip_io ?ga') (strip_io ?gb'))"
    by (simp only: a b)
  also have "\<dots> = snd (get_output_record_from strptime ?ga' ?gb')"
    by (simp add: get_output_record_from_strip)
  finally have "snd (get_output_record_from strptime ?ga ?gb)
      = snd (get_output_record_from strptime ?ga' ?gb')" .
  with y show ?thesis by (simp add: get_output_record_def)
qed

lemma example_a_y_run:
  "get_output_record json_loads_example strptime_padded (log_file [row_a]) (log_file [row_y])
     = ([Io LogA CheckPath, Io LogA OpenFile, Io LogA (ReadRow row_a),
         Io LogB CheckPath, Io LogB OpenFile, Io LogB (ReadRow row_y),
         Yield LogB (Some rec_y), Yield LogA (Some rec_a)], Finished)"
  by code_simp

theorem output_determined_by_input_sequences_witness:
  "gen_items (get_record json_loads_example (log_file [row_a]))
     = gen_items (get_record json_loads_example
         \<lparr>path_exists = True, path_is_file = True, path_suffix = ''.JSONL'', path_rows = [row_a]\<rparr>)
   \<and> gen_end (get_record json_loads_example (log_file [row_a]))
     = gen_end (get_record json_loads_example
         \<lparr>path_exists = True, path_is_file = True, path_suffix = ''.JSONL'', path_rows = [row_a]\<rparr>)
   \<and> gen_items (get_record json_loads_example (log_file [row_y]))
     = gen_items (get_record json_loads_example
         \<lparr>path_exists = True, path_is_file = True, path_suffix = ''.JsonL'', path_rows = [row_y]\<rparr>)
   \<and> gen_end (get_record json_loads_example (log_file [row_y]))
     = gen_end (get_record json_loads_example
         \<lparr>path_exists = True, path_is_file = True, path_suffix = ''.JsonL'', path_rows = [row_y]\<rparr>)
   \<and> yields (fst (get_output_record json_loads_example strptime_padded
         \<lparr>path_exists = True, path_is_file = True, path_suffix = ''.JSONL'', path_rows = [row_a]\<rparr>
         \<lparr>path_exists = True, path_is_file = True, path_suffix = ''.JsonL'', path_rows = [row_y]\<rparr>))
     = [(LogB, Some rec_y), (LogA, Some rec_a)]
   \<and> snd (get_output_record json_loads_example strptime_padded
         \<lparr>path_exists = True, path_is_file = True, path_suffix = ''.JSONL'', path_rows = [row_a]\<rparr>
         \<lparr>path_exists = True, path_is_file = True, path_suffix = ''.JsonL'', path_rows = [row_y]\<rparr>)
     = Finished"
proof -
  have h1: "gen_items (get_record json_loads_example (log_file [row_a]))
     = gen_items (get_record json_loads_example
         \<lparr>path_exists = True, path_is_file = True, path_suffix = ''.JSONL'', path_rows = [row_a]\<rparr>)"
    by code_simp
  have h2: "gen_end (get_record json_loads_example (log_file [row_a]))
     = gen_end (get_record json_loads_example
         \<lparr>path_exists = True, path_is_file = True, path_suffix = ''.JSONL'', path_rows = [row_a]\<rparr>)"
    by code_simp
  have h3: "gen_items (get_record json_loads_example (log_file [row_y]))
     = gen_items (get_record json_loads_example
         \<lparr>path_exists = True, path_is_file = True, path_suffix = ''.JsonL'', path_rows = [row_y]\<rparr>)"
    by code_simp
  have h4: "gen_end (get_record json_loads_example (log_file [row_y]))
     = gen_end (get_record json_loads_example
         \<lparr>path_exists = True, path_is_file = True, path_suffix = ''.JsonL'', path_rows = [row_y]\<rparr>)"
    by code_simp
  from output_determined_by_input_sequences[OF h1 h2 h3 h4, of strptime_padded]
  have "yields (fst (get_output_record json_loads_example strptime_padded
         \<lparr>path_exists = True, path_is_file = True, path_suffix = ''.JSONL'', path_rows = [row_a]\<rparr>
         \<lparr>path_exists = True, path_is_file = True, path_suffix = ''.JsonL'', path_rows = [row_y]\<rparr>))
     = [(LogB, Some rec_y), (LogA, Some rec_a)]
   \<and> snd (get_output_record json_loads_example strptime_padded
         \<lparr>path_exists = True, path_is_file = True, path_suffix = ''.JSONL'', path_rows = [row_a]\<rparr>
         \<lparr>path_exists = True, path_is_file = True, path_suffix = ''.JsonL'', path_rows = [row_y]\<rparr>)
     = Finished"
    by (simp add: example_a_y_run)
  with h1 h2 h3 h4 show ?thesis by blast
qed

section \<open>Validation of the input paths\<close>

lemma ios_append: "ios (xs @ ys) = ios xs @ ios ys"
  by (induction xs rule: ios.induct) auto

lemma io_by_append: "io_by sd (xs @ ys) = io_by sd xs @ io_by sd ys"
  by (simp add: io_by_def ios_append)

lemma io_by_map_Io: "io_by sd (map (Io sd') acts) = (if sd = sd' then acts else [])"
  by (induction acts) (auto simp: io_by_def)

lemma io_by_Yield: "io_by sd (Yield sd' v # evs) = io_by sd evs"
  by (simp add: io_by_def)

lemma gen_next_acts: "gen_next g = (acts, p, g') \<Longrightarrow> gen_acts g = acts @ gen_acts g'"
  by (cases g) auto

lemma merge_step_io:
  assumes "merge_step sp s = (evs, r)"
  shows "case r of
           Inl out \<Rightarrow> prefix (io_by LogA evs) (gen_acts (log_a_records s))
                    \<and> prefix (io_by LogB evs) (gen_acts (log_b_records s))
         | Inr s' \<Rightarrow> gen_acts (log_a_records s) = io_by LogA evs @ gen_acts (log_a_records s')
                    \<and> gen_acts (log_b_records s) = io_by LogB evs @ gen_acts (log_b_records s')"
proof (cases "log_a_record s \<noteq> None \<or> log_b_record s \<noteq> None")
  case False
  then have "merge_step sp s = ([], Inl Finished)" by (simp add: merge_step_def)
  with assms show ?thesis by (auto simp: io_by_def)
next
  case live: True
  show ?thesis
  proof (cases "py_lt sp (log_a_record s) (log_b_record s)")
    case (Inl e)
    with live have "merge_step sp s = ([], Inl (Failed e))" by (simp add: merge_step_def)
    with assms show ?thesis by (auto simp: io_by_def)
  next
    case (Inr t)
    show ?thesis
    proof (cases t)
      case True
      obtain acts p g where n: "gen_next (log_a_records s) = (acts, p, g)"
        by (cases "gen_next (log_a_records s)") auto
      from live Inr True n assms gen_next_acts[OF n] show ?thesis
        by (cases p) (auto simp: merge_step_def io_by_Yield io_by_map_Io)
    next
      case False
      obtain acts p g where n: "gen_next (log_b_records s) = (acts, p, g)"
        by (cases "gen_next (log_b_records s)") auto
      from live Inr False n assms gen_next_acts[OF n] show ?thesis
        by (cases p) (auto simp: merge_step_def io_by_Yield io_by_map_Io)
    qed
  qed
qed

lemma merge_loop_io:
  assumes "merge_loop sp s = (evs, out)"
  shows "prefix (io_by LogA evs) (gen_acts (log_a_records s))
       \<and> prefix (io_by LogB evs) (gen_acts (log_b_records s))"
  using assms
proof (induction rule: merge_loop_result_induct)
  case (Stop s evs out)
  from merge_step_io[OF this] show ?case by simp
next
  case (Step s evs1 s' evs2 out)
  from merge_step_io[OF Step(1)] Step(3) show ?case
    by (simp add: io_by_append)
qed

lemma get_output_record_from_io:
  "prefix (io_by LogA (fst (get_output_record_from sp ga gb))) (gen_acts ga)
   \<and> prefix (io_by LogB (fst (get_output_record_from sp ga gb))) (gen_acts gb)"
proof (cases ga)
  case ya: (Yields acts_a a ga')
  show ?thesis
  proof (cases gb)
    case (Yields acts_b b gb')
    from merge_loop_io[OF surjective_pairing, of sp "\<lparr>log_a_record = Some a,
        log_b_record = Some b, log_a_records = ga', log_b_records = gb'\<rparr>"] ya Yields
    show ?thesis
      by (simp add: get_output_record_from_def case_prod_beta io_by_append io_by_map_Io)
  next
    case (Stops acts_b)
    with ya show ?thesis
      by (simp add: get_output_record_from_def io_by_append io_by_map_Io)
  next
    case (Raises acts_b e)
    with ya show ?thesis
      by (simp add: get_output_record_from_def io_by_append io_by_map_Io)
  qed
next
  case (Stops acts_a)
  then show ?thesis by (simp add: get_output_record_from_def io_by_map_Io)
next
  case (Raises acts_a e)
  then show ?thesis by (simp add: get_output_record_from_def io_by_map_Io)
qed

lemma read_rows_acts: "prefix (gen_acts (read_rows jl acts rows)) (acts @ map ReadRow rows)"
proof (induction rows arbitrary: acts)
  case Nil
  show ?case by simp
next
  case (Cons row rest)
  from Cons[of "[]"] show ?case by (cases "decode_row jl row") auto
qed

lemma check_path_invalid:
  "invalid_input p \<Longrightarrow> \<exists>e. is_input_error e \<and> check_path_to_log p = Inl e"
  by (auto simp: invalid_input_def is_input_error_def check_path_to_log_def)

lemma check_path_valid: "\<not> invalid_input p \<Longrightarrow> check_path_to_log p = Inr True"
  by (auto simp: invalid_input_def check_path_to_log_def)

lemma get_record_acts: "prefix (gen_acts (get_record jl p)) (reader_acts p)"
proof (cases "invalid_input p")
  case True
  from check_path_invalid[OF this] True show ?thesis
    by (auto simp: get_record_def reader_acts_def)
next
  case False
  from check_path_valid[OF this] False read_rows_acts[of jl "[CheckPath, OpenFile]" "path_rows p"]
  show ?thesis by (simp add: get_record_def reader_acts_def)
qed

text \<open>
  C7, as the code has it. Each path is checked when its reader is first pulled, \<open>A\<close> before
  \<open>B\<close>, and \<open>B\<close> only once the first record of \<open>A\<close> has been read. An invalid path of \<open>A\<close>
  ends the run with \<^verbatim>\<open>FileNotFoundError\<close> or \<^verbatim>\<open>ValueError\<close> before anything is opened
  or read. An invalid path of \<open>B\<close>, when \<open>A\<close> is valid and its first row gives a record, ends
  the run with that exception after \<open>A\<close> was opened and its first row read, and nothing of
  \<open>B\<close> is opened or read. In every run the actions on each input come in the order check,
  open, rows: no input is opened or read before it has been checked, and an invalid one is
  never opened.
\<close>

theorem each_input_checked_before_it_is_read:
  "(invalid_input log_a_path \<longrightarrow>
      (\<exists>e. is_input_error e
         \<and> get_output_record json_loads strptime log_a_path log_b_path
             = ([Io LogA CheckPath], Failed e)))
   \<and> (\<not> invalid_input log_a_path \<and> path_rows log_a_path = row # rest
        \<and> decode_row json_loads row = Inr a \<and> invalid_input log_b_path \<longrightarrow>
      (\<exists>e. is_input_error e
         \<and> get_output_record json_loads strptime log_a_path log_b_path
             = ([Io LogA CheckPath, Io LogA OpenFile, Io LogA (ReadRow row), Io LogB CheckPath],
                Failed e)))
   \<and> prefix (io_by LogA (fst (get_output_record json_loads strptime log_a_path log_b_path)))
        (reader_acts log_a_path)
   \<and> prefix (io_by LogB (fst (get_output_record json_loads strptime log_a_path log_b_path)))
        (reader_acts log_b_path)"
proof (intro conjI impI)
  assume "invalid_input log_a_path"
  from check_path_invalid[OF this] show "\<exists>e. is_input_error e
         \<and> get_output_record json_loads strptime log_a_path log_b_path
             = ([Io LogA CheckPath], Failed e)"
    by (auto simp: get_output_record_def get_record_def get_output_record_from_def)
next
  assume h: "\<not> invalid_input log_a_path \<and> path_rows log_a_path = row # rest
        \<and> decode_row json_loads row = Inr a \<and> invalid_input log_b_path"
  then have ga: "get_record json_loads log_a_path
      = Yields [CheckPath, OpenFile, ReadRow row] a (read_rows json_loads [] rest)"
    by (simp add: get_record_def check_path_valid)
  from h check_path_invalid[of log_b_path] obtain e where e: "is_input_error e"
    and gb: "get_record json_loads log_b_path = Raises [CheckPath] e"
    by (auto simp: get_record_def)
  from ga gb have "get_output_record json_loads strptime log_a_path log_b_path
      = ([Io LogA CheckPath, Io LogA OpenFile, Io LogA (ReadRow row), Io LogB CheckPath], Failed e)"
    by (simp add: get_output_record_def get_output_record_from_def)
  with e show "\<exists>e. is_input_error e
         \<and> get_output_record json_loads strptime log_a_path log_b_path
             = ([Io LogA CheckPath, Io LogA OpenFile, Io LogA (ReadRow row), Io LogB CheckPath],
                Failed e)"
    by blast
next
  from get_output_record_from_io[of strptime "get_record json_loads log_a_path"
      "get_record json_loads log_b_path"] get_record_acts[of json_loads log_a_path]
  show "prefix (io_by LogA (fst (get_output_record json_loads strptime log_a_path log_b_path)))
        (reader_acts log_a_path)"
    by (auto simp: get_output_record_def intro: prefix_order.trans)
next
  from get_output_record_from_io[of strptime "get_record json_loads log_a_path"
      "get_record json_loads log_b_path"] get_record_acts[of json_loads log_b_path]
  show "prefix (io_by LogB (fst (get_output_record json_loads strptime log_a_path log_b_path)))
        (reader_acts log_b_path)"
    by (auto simp: get_output_record_def intro: prefix_order.trans)
qed

theorem each_input_checked_before_it_is_read_witness:
  "invalid_input \<lparr>path_exists = True, path_is_file = True, path_suffix = ''.log'',
                  path_rows = [row_b]\<rparr>
   \<and> \<not> invalid_input (log_file [row_a, row_c])
   \<and> decode_row json_loads_example row_a = Inr rec_a
   \<and> (\<exists>e. is_input_error e
         \<and> get_output_record json_loads_example strptime_padded
              \<lparr>path_exists = True, path_is_file = True, path_suffix = ''.log'',
               path_rows = [row_b]\<rparr> (log_file [row_a, row_c])
             = ([Io LogA CheckPath], Failed e))
   \<and> (\<exists>e. is_input_error e
         \<and> get_output_record json_loads_example strptime_padded (log_file [row_a, row_c])
              \<lparr>path_exists = True, path_is_file = True, path_suffix = ''.log'',
               path_rows = [row_b]\<rparr>
             = ([Io LogA CheckPath, Io LogA OpenFile, Io LogA (ReadRow row_a), Io LogB CheckPath],
                Failed e))"
proof -
  let ?bad = "\<lparr>path_exists = True, path_is_file = True, path_suffix = ''.log'',
               path_rows = [row_b]\<rparr>"
  have i: "invalid_input ?bad" by code_simp
  have v: "\<not> invalid_input (log_file [row_a, row_c])" by code_simp
  have d: "decode_row json_loads_example row_a = Inr rec_a" by code_simp
  have r: "path_rows (log_file [row_a, row_c]) = row_a # [row_c]" by (simp add: log_file_def)
  from each_input_checked_before_it_is_read[where log_a_path = ?bad
      and json_loads = json_loads_example and strptime = strptime_padded
      and log_b_path = "log_file [row_a, row_c]"] i
  have 1: "\<exists>e. is_input_error e
         \<and> get_output_record json_loads_example strptime_padded ?bad (log_file [row_a, row_c])
             = ([Io LogA CheckPath], Failed e)"
    by blast
  from each_input_checked_before_it_is_read[where log_a_path = "log_file [row_a, row_c]"
      and row = row_a and rest = "[row_c]" and json_loads = json_loads_example and a = rec_a
      and log_b_path = ?bad and strptime = strptime_padded] i v d r
  have 2: "\<exists>e. is_input_error e
         \<and> get_output_record json_loads_example strptime_padded (log_file [row_a, row_c]) ?bad
             = ([Io LogA CheckPath, Io LogA OpenFile, Io LogA (ReadRow row_a), Io LogB CheckPath],
                Failed e)"
    by blast
  from i v d 1 2 show ?thesis by blast
qed

text \<open>
  C7 as stated fails: with a valid \<open>A\<close> and a missing \<open>B\<close>, \<open>A\<close> is opened and its first row
  is read before \<open>B\<close> is checked.
\<close>

theorem log_a_read_before_log_b_checked:
  "invalid_input \<lparr>path_exists = False, path_is_file = False, path_suffix = ''.jsonl'',
                  path_rows = []\<rparr>
   \<and> get_output_record json_loads_example strptime_padded (log_file [row_a])
        \<lparr>path_exists = False, path_is_file = False, path_suffix = ''.jsonl'', path_rows = []\<rparr>
     = ([Io LogA CheckPath, Io LogA OpenFile, Io LogA (ReadRow row_a), Io LogB CheckPath],
        Failed FileNotFoundError)"
  by code_simp

section \<open>Malformed lines\<close>

lemma LogRecord_init_error: "LogRecord_init obj = Inl e \<Longrightarrow> e = TypeError"
  by (auto simp: LogRecord_init_def split: json.splits option.splits if_splits)

lemma decode_row_error:
  "decode_row jl row = Inl e \<Longrightarrow>
     e = (case jl row of None \<Rightarrow> JSONDecodeError | Some obj \<Rightarrow> TypeError)"
  by (auto simp: decode_row_def dest: LogRecord_init_error split: option.splits)

lemma read_rows_bad:
  "map (decode_row jl) pre = map Inr rs \<Longrightarrow> decode_row jl bad = Inl e \<Longrightarrow>
     gen_items (read_rows jl acts (pre @ bad # post)) = rs
     \<and> gen_end (read_rows jl acts (pre @ bad # post)) = Some e"
proof (induction pre arbitrary: rs acts)
  case Nil
  then show ?case by simp
next
  case (Cons row pre)
  from Cons.prems(1) obtain r rs' where rs: "rs = r # rs'" "decode_row jl row = Inr r"
    "map (decode_row jl) pre = map Inr rs'"
    by (cases rs) auto
  from Cons.IH[OF rs(3) Cons.prems(2), of "[]"] rs show ?case by simp
qed

text \<open>
  C6, as the code has it. Let a valid file have a row that \<^verbatim>\<open>json.loads\<close> rejects, or
  whose value is not an object with exactly the three fields, after rows that all give
  records. Its reader yields the records of the rows before that row and then raises
  \<^verbatim>\<open>JSONDecodeError\<close>, respectively \<^verbatim>\<open>TypeError\<close> (an exception without a line number
  of the file). A merge with that file on either side does not end normally, and from that
  side it yields only records of rows before the bad row, in their order: the row is not
  skipped and nothing after it is yielded. A timestamp is not looked at when the row is
  read: it ends the merge, with the exception of \<^verbatim>\<open>strptime\<close>, in the step that compares
  its record with a record of the other side.
\<close>

theorem malformed_line_aborts:
  assumes "\<not> invalid_input p"
    and "path_rows p = pre @ bad # post"
    and "map (decode_row json_loads) pre = map Inr rs"
    and "decode_row json_loads bad = Inl e"
  shows "gen_items (get_record json_loads p) = rs \<and> gen_end (get_record json_loads p) = Some e
       \<and> e = (case json_loads bad of None \<Rightarrow> JSONDecodeError | Some obj \<Rightarrow> TypeError)
       \<and> snd (get_output_record json_loads strptime p q) \<noteq> Finished
       \<and> snd (get_output_record json_loads strptime q p) \<noteq> Finished
       \<and> prefix (yielded_by LogA (fst (get_output_record json_loads strptime p q))) (map Some rs)
       \<and> prefix (yielded_by LogB (fst (get_output_record json_loads strptime q p))) (map Some rs)
       \<and> (LogRecord_timestamp strptime a = Inl e' \<longrightarrow>
            merge_step strptime \<lparr>log_a_record = Some a, log_b_record = Some b,
                                 log_a_records = ga, log_b_records = gb\<rparr>
              = ([], Inl (Failed e')))
       \<and> (LogRecord_timestamp strptime a = Inr d \<and> LogRecord_timestamp strptime b = Inl e' \<longrightarrow>
            merge_step strptime \<lparr>log_a_record = Some a, log_b_record = Some b,
                                 log_a_records = ga, log_b_records = gb\<rparr>
              = ([], Inl (Failed e')))"
proof -
  from assms have g: "gen_items (get_record json_loads p) = rs"
    "gen_end (get_record json_loads p) = Some e"
    using read_rows_bad[OF assms(3,4), of "[CheckPath, OpenFile]" post]
    by (simp_all add: get_record_def check_path_valid)
  have e: "e = (case json_loads bad of None \<Rightarrow> JSONDecodeError | Some obj \<Rightarrow> TypeError)"
    by (rule decode_row_error[OF assms(4)])
  have pq: "get_output_record_from strptime (get_record json_loads p) (get_record json_loads q)
      = (fst (get_output_record json_loads strptime p q),
         snd (get_output_record json_loads strptime p q))"
    by (simp add: get_output_record_def)
  have qp: "get_output_record_from strptime (get_record json_loads q) (get_record json_loads p)
      = (fst (get_output_record json_loads strptime q p),
         snd (get_output_record json_loads strptime q p))"
    by (simp add: get_output_record_def)
  from get_output_record_from_sides[OF pq] g
  have 1: "snd (get_output_record json_loads strptime p q) \<noteq> Finished"
    "prefix (yielded_by LogA (fst (get_output_record json_loads strptime p q))) (map Some rs)"
    by auto
  from get_output_record_from_sides[OF qp] g
  have 2: "snd (get_output_record json_loads strptime q p) \<noteq> Finished"
    "prefix (yielded_by LogB (fst (get_output_record json_loads strptime q p))) (map Some rs)"
    by auto
  have 3: "LogRecord_timestamp strptime a = Inl e' \<longrightarrow>
            merge_step strptime \<lparr>log_a_record = Some a, log_b_record = Some b,
                                 log_a_records = ga, log_b_records = gb\<rparr>
              = ([], Inl (Failed e'))"
    by (simp add: merge_step_def LogRecord_lt_def)
  have 4: "LogRecord_timestamp strptime a = Inr d \<and> LogRecord_timestamp strptime b = Inl e' \<longrightarrow>
            merge_step strptime \<lparr>log_a_record = Some a, log_b_record = Some b,
                                 log_a_records = ga, log_b_records = gb\<rparr>
              = ([], Inl (Failed e'))"
    by (simp add: merge_step_def LogRecord_lt_def)
  from g e 1 2 3 4 show ?thesis by blast
qed

theorem malformed_line_aborts_witness:
  "\<not> invalid_input (log_file [row_a, row_not_json, row_c])
   \<and> path_rows (log_file [row_a, row_not_json, row_c]) = [row_a] @ row_not_json # [row_c]
   \<and> map (decode_row json_loads_example) [row_a] = map Inr [rec_a]
   \<and> decode_row json_loads_example row_not_json = Inl JSONDecodeError
   \<and> gen_items (get_record json_loads_example (log_file [row_a, row_not_json, row_c])) = [rec_a]
   \<and> gen_end (get_record json_loads_example (log_file [row_a, row_not_json, row_c]))
       = Some JSONDecodeError
   \<and> snd (get_output_record json_loads_example strptime_padded
            (log_file [row_a, row_not_json, row_c]) (log_file [row_b])) \<noteq> Finished
   \<and> prefix (yielded_by LogA (fst (get_output_record json_loads_example strptime_padded
            (log_file [row_a, row_not_json, row_c]) (log_file [row_b])))) [Some rec_a]
   \<and> LogRecord_timestamp strptime_padded rec_z = Inl ValueError_strptime
   \<and> merge_step strptime_padded \<lparr>log_a_record = Some rec_z, log_b_record = Some rec_b,
                                  log_a_records = Stops [], log_b_records = Stops []\<rparr>
       = ([], Inl (Failed ValueError_strptime))"
proof -
  have v: "\<not> invalid_input (log_file [row_a, row_not_json, row_c])" by code_simp
  have r: "path_rows (log_file [row_a, row_not_json, row_c]) = [row_a] @ row_not_json # [row_c]"
    by (simp add: log_file_def)
  have d: "map (decode_row json_loads_example) [row_a] = map Inr [rec_a]" by code_simp
  have b: "decode_row json_loads_example row_not_json = Inl JSONDecodeError" by code_simp
  have z: "LogRecord_timestamp strptime_padded rec_z = Inl ValueError_strptime" by code_simp
  from malformed_line_aborts[OF v r d b, where strptime = strptime_padded
      and q = "log_file [row_b]" and a = rec_z and b = rec_b and e' = ValueError_strptime
      and ga = "Stops []" and gb = "Stops []"] z
  have "gen_items (get_record json_loads_example (log_file [row_a, row_not_json, row_c])) = [rec_a]
   \<and> gen_end (get_record json_loads_example (log_file [row_a, row_not_json, row_c]))
       = Some JSONDecodeError
   \<and> snd (get_output_record json_loads_example strptime_padded
            (log_file [row_a, row_not_json, row_c]) (log_file [row_b])) \<noteq> Finished
   \<and> prefix (yielded_by LogA (fst (get_output_record json_loads_example strptime_padded
            (log_file [row_a, row_not_json, row_c]) (log_file [row_b])))) [Some rec_a]
   \<and> merge_step strptime_padded \<lparr>log_a_record = Some rec_z, log_b_record = Some rec_b,
                                  log_a_records = Stops [], log_b_records = Stops []\<rparr>
       = ([], Inl (Failed ValueError_strptime))"
    by simp
  with v r d b z show ?thesis by blast
qed

text \<open>
  C6 as stated fails: the last row of \<open>B\<close> has a timestamp that does not parse, and the merge
  reads it, yields its record and ends normally.
\<close>

theorem unparsable_timestamp_is_yielded:
  "LogRecord_timestamp strptime_padded rec_z = Inl ValueError_strptime
   \<and> gen_items (get_record json_loads_example (log_file [row_b, row_z])) = [rec_b, rec_z]
   \<and> yielded (fst (get_output_record json_loads_example strptime_padded
         (log_file [row_a]) (log_file [row_b, row_z])))
       = [Some rec_a, Some rec_b, Some rec_z]
   \<and> snd (get_output_record json_loads_example strptime_padded
         (log_file [row_a]) (log_file [row_b, row_z])) = Finished"
  by code_simp

end
